theory Spec2Isabelle
  imports Complex_Main "HOL-Library.Word" "HOL-Library.Log_Nat"
begin

section \<open>TaskState (node\_threadpool.cc)\<close>

text \<open>
  The lifecycle states of a task, \<^verbatim>\<open>TaskState::State\<close>. The enum has exactly these five
  values, so the \<^verbatim>\<open>default: CHECK(0)\<close> arm of \<^verbatim>\<open>ValidStateTransition\<close> has no
  counterpart.
\<close>

datatype State = INITIAL | QUEUED | ASSIGNED | CANCELLED | COMPLETED

text \<open>\<^verbatim>\<open>class TaskState\<close>: the one field \<^verbatim>\<open>state_\<close>. Every method takes
  \<^verbatim>\<open>lock_\<close> for its whole body, so a method call is one atomic step on the record.\<close>

record TaskState =
  state :: State

text \<open>\<^verbatim>\<open>TaskState::TaskState() : state_(INITIAL)\<close>\<close>

definition TaskState_ctor :: TaskState where
  "TaskState_ctor = \<lparr>state = INITIAL\<rparr>"

definition GetState :: "TaskState \<Rightarrow> State" where
  "GetState ts = state ts"

text \<open>\<^verbatim>\<open>TaskState::ValidStateTransition(old_state, new_state)\<close>, case by case.\<close>

fun ValidStateTransition :: "State \<Rightarrow> State \<Rightarrow> bool" where
  "ValidStateTransition INITIAL new_state = (new_state = QUEUED \<or> new_state = CANCELLED)"
| "ValidStateTransition QUEUED new_state = (new_state = ASSIGNED \<or> new_state = CANCELLED)"
| "ValidStateTransition ASSIGNED new_state = (new_state = COMPLETED \<or> new_state = CANCELLED)"
| "ValidStateTransition CANCELLED new_state = (new_state = COMPLETED)"
| "ValidStateTransition COMPLETED new_state = False"

text \<open>\<^verbatim>\<open>TaskState::TryUpdateState\<close>: the value returned and the object afterwards.\<close>

definition TryUpdateState :: "TaskState \<Rightarrow> State \<Rightarrow> State \<times> TaskState" where
  "TryUpdateState ts new_state =
     (let ts' = (if ValidStateTransition (state ts) new_state
                 then ts\<lparr>state := new_state\<rparr> else ts)
      in (state ts', ts'))"

text \<open>\<^verbatim>\<open>TaskState::Cancel\<close>\<close>

definition Cancel :: "TaskState \<Rightarrow> bool \<times> TaskState" where
  "Cancel ts =
     (case TryUpdateState ts CANCELLED of
        (s, ts') \<Rightarrow> if s = CANCELLED then (True, ts') else (False, ts'))"

text \<open>
  A sequence of \<^verbatim>\<open>TryUpdateState\<close> calls on one object, in the order in which they take
  the lock: the list of values the calls return.
\<close>

fun observed :: "TaskState \<Rightarrow> State list \<Rightarrow> State list" where
  "observed ts [] = []"
| "observed ts (r # rs) =
     (case TryUpdateState ts r of (s, ts') \<Rightarrow> s # observed ts' rs)"

text \<open>The state path of such a sequence: the state before the first call, then the
  state after each call.\<close>

definition state_path :: "TaskState \<Rightarrow> State list \<Rightarrow> State list" where
  "state_path ts rs = state ts # observed ts rs"

text \<open>
  The transition table as the specification words it (section 3, "Valid transitions"),
  to be compared with \<open>ValidStateTransition\<close>.
\<close>

definition legal_transitions :: "(State \<times> State) set" where
  "legal_transitions =
     {(INITIAL, QUEUED), (INITIAL, CANCELLED),
      (QUEUED, ASSIGNED), (QUEUED, CANCELLED),
      (ASSIGNED, COMPLETED), (ASSIGNED, CANCELLED),
      (CANCELLED, COMPLETED)}"

text \<open>A walk on the specification's graph: every two successive states are joined by
  an edge.\<close>

fun walk :: "State list \<Rightarrow> bool" where
  "walk [] = True"
| "walk [s] = True"
| "walk (s # s' # rest) = ((s, s') \<in> legal_transitions \<and> walk (s' # rest))"

section \<open>Task, TaskQueue, Worker and Threadpool (node\_threadpool.cc)\<close>

text \<open>
  Failures of the C++ code are values of the model: a failed \<^verbatim>\<open>CHECK\<close> aborts the
  process, a null pointer is dereferenced, a \<^verbatim>\<open>double\<close> outside the range of
  \<^verbatim>\<open>uint64_t\<close> is converted (undefined behaviour).
\<close>

datatype error = CheckFailed | NullPointer | UndefinedCast

text \<open>
  \<^verbatim>\<open>class Task\<close>. The virtual \<^verbatim>\<open>Run()\<close> is opaque: a task carries the name
  \<open>run_id\<close> of its action, and running it is recorded in a log. \<^verbatim>\<open>task_state_\<close> is
  a \<^verbatim>\<open>shared_ptr<TaskState>\<close>, null until \<^verbatim>\<open>SetTaskState\<close>: the objects live in a
  heap (a list of \<open>TaskState\<close>s), and a pointer is an index into it, so that the task and
  every holder of the handle that \<^verbatim>\<open>Post\<close> returns see one object. The record
  \<^verbatim>\<open>details_\<close> (type, priority, cancelable) is only logged and is left out.
  Field names drop the trailing underscore of the source.
\<close>

record Task =
  run_id :: nat
  task_state :: "nat option"

text \<open>\<^verbatim>\<open>Task::SetTaskState\<close>\<close>

definition SetTaskState :: "Task \<Rightarrow> nat option \<Rightarrow> Task" where
  "SetTaskState t h = t\<lparr>task_state := h\<rparr>"

text \<open>\<^verbatim>\<open>Task::TryUpdateState\<close>: \<^verbatim>\<open>task_state_->TryUpdateState(new_state)\<close>.\<close>

definition Task_TryUpdateState ::
    "Task \<Rightarrow> State \<Rightarrow> TaskState list \<Rightarrow> error + (State \<times> TaskState list)" where
  "Task_TryUpdateState t new_state hp =
     (case task_state t of
        None \<Rightarrow> Inl NullPointer
      | Some h \<Rightarrow>
          if h < length hp
          then (case TryUpdateState (hp ! h) new_state of (s, ts') \<Rightarrow> Inr (s, hp[h := ts']))
          else Inl NullPointer)"

text \<open>
  \<^verbatim>\<open>class TaskQueue\<close> of the threadpool: \<^verbatim>\<open>queue_\<close> (front of the \<^verbatim>\<open>std::queue\<close> is
  the head of the list), \<^verbatim>\<open>outstanding_tasks_\<close>, \<^verbatim>\<open>stopped_\<close>. The two condition
  variables are observed through counters of the \<^verbatim>\<open>Signal\<close> and \<^verbatim>\<open>Broadcast\<close>
  calls made on them.
\<close>

record TaskQueue =
  queue :: "Task list"
  outstanding_tasks :: int
  stopped :: bool
  task_available_signals :: nat
  task_available_broadcasts :: nat
  tasks_drained_broadcasts :: nat

definition TaskQueue_ctor :: TaskQueue where
  "TaskQueue_ctor =
     \<lparr>queue = [], outstanding_tasks = 0, stopped = False,
      task_available_signals = 0, task_available_broadcasts = 0,
      tasks_drained_broadcasts = 0\<rparr>"

text \<open>\<^verbatim>\<open>TaskQueue::Push\<close>: the value returned, the queue and the heap afterwards.\<close>

definition Push ::
    "TaskQueue \<Rightarrow> Task \<Rightarrow> TaskState list \<Rightarrow> error + (bool \<times> TaskQueue \<times> TaskState list)" where
  "Push q t hp =
     (if stopped q then Inr (False, q, hp)
      else
        (case Task_TryUpdateState t QUEUED hp of
           Inl e \<Rightarrow> Inl e
         | Inr (s, hp') \<Rightarrow>
             if s = QUEUED \<or> s = CANCELLED
             then Inr (True,
                       q\<lparr>queue := queue q @ [t],
                         outstanding_tasks := outstanding_tasks q + 1,
                         task_available_signals := task_available_signals q + 1\<rparr>,
                       hp')
             else Inl CheckFailed))"

text \<open>\<^verbatim>\<open>TaskQueue::Pop\<close>\<close>

definition Pop :: "TaskQueue \<Rightarrow> Task option \<times> TaskQueue" where
  "Pop q = (case queue q of [] \<Rightarrow> (None, q) | t # rest \<Rightarrow> (Some t, q\<lparr>queue := rest\<rparr>))"

text \<open>
  A call that waits on a condition variable either returns or leaves its thread
  suspended (\<open>Blocked\<close>); a suspended thread evaluates the loop condition again when
  it is next scheduled.
\<close>

datatype 'a blocking = Blocked | Returns 'a

text \<open>\<^verbatim>\<open>TaskQueue::BlockingPop\<close>\<close>

definition BlockingPop :: "TaskQueue \<Rightarrow> (Task option \<times> TaskQueue) blocking" where
  "BlockingPop q =
     (if queue q = [] \<and> \<not> stopped q then Blocked
      else (case queue q of
              [] \<Rightarrow> Returns (None, q)
            | t # rest \<Rightarrow> Returns (Some t, q\<lparr>queue := rest\<rparr>)))"

text \<open>\<^verbatim>\<open>TaskQueue::NotifyOfCompletion\<close>\<close>

definition NotifyOfCompletion :: "TaskQueue \<Rightarrow> error + TaskQueue" where
  "NotifyOfCompletion q =
     (let q' = q\<lparr>outstanding_tasks := outstanding_tasks q - 1\<rparr>
      in if outstanding_tasks q' \<ge> 0
         then Inr (if outstanding_tasks q' = 0
                   then q'\<lparr>tasks_drained_broadcasts := tasks_drained_broadcasts q' + 1\<rparr>
                   else q')
         else Inl CheckFailed)"

text \<open>\<^verbatim>\<open>TaskQueue::BlockingDrain\<close>\<close>

definition BlockingDrain :: "TaskQueue \<Rightarrow> unit blocking" where
  "BlockingDrain q = (if outstanding_tasks q \<noteq> 0 then Blocked else Returns ())"

text \<open>\<^verbatim>\<open>TaskQueue::Stop\<close>\<close>

definition Stop :: "TaskQueue \<Rightarrow> TaskQueue" where
  "Stop q = q\<lparr>stopped := True, task_available_broadcasts := task_available_broadcasts q + 1\<rparr>"

text \<open>\<^verbatim>\<open>TaskQueue::Length\<close>\<close>

definition Length :: "TaskQueue \<Rightarrow> int" where
  "Length q = int (length (queue q))"

text \<open>
  A worker thread is at one of the atomic steps of \<^verbatim>\<open>Worker::_Run\<close>: in
  \<^verbatim>\<open>BlockingPop\<close> (\<open>Popping\<close>), holding a popped task at a point of the loop body, or
  returned from \<^verbatim>\<open>_Run\<close>. \<open>AtRun s\<close> carries the local \<^verbatim>\<open>task_state\<close>.
\<close>

datatype worker_pc = AtAssign | AtRun State | AtComplete | AtNotify

datatype Worker = Popping | Holding Task worker_pc | Returned

text \<open>
  The threadpool with its surroundings: the heap of \<open>TaskState\<close> objects, the
  \<^verbatim>\<open>Threadpool\<close>'s \<^verbatim>\<open>queue_\<close> and \<^verbatim>\<open>workers_\<close>, and the log of the tasks whose
  \<^verbatim>\<open>Run()\<close> was invoked, in order.
\<close>

record world =
  heap :: "TaskState list"
  tp_queue :: TaskQueue
  workers :: "Worker list"
  run_log :: "Task list"

text \<open>
  One atomic step of a worker in \<^verbatim>\<open>Worker::_Run\<close>:
  \<^item> \<open>Popping\<close>: \<^verbatim>\<open>queue->BlockingPop()\<close>; a null result ends the loop;
  \<^item> \<open>AtAssign\<close>: \<^verbatim>\<open>task_state = task->TryUpdateState(ASSIGNED)\<close>;
  \<^item> \<open>AtRun\<close>: \<^verbatim>\<open>task->Run()\<close> if \<^verbatim>\<open>task_state == ASSIGNED\<close>, else
    \<^verbatim>\<open>CHECK_EQ(task_state, CANCELLED)\<close>;
  \<^item> \<open>AtComplete\<close>: \<^verbatim>\<open>CHECK_EQ(task->TryUpdateState(COMPLETED), COMPLETED)\<close>;
  \<^item> \<open>AtNotify\<close>: \<^verbatim>\<open>queue->NotifyOfCompletion()\<close>, then the next iteration.
\<close>

fun Worker_step :: "Worker \<Rightarrow> world \<Rightarrow> error + (Worker \<times> world)" where
  "Worker_step Popping w =
     (case BlockingPop (tp_queue w) of
        Blocked \<Rightarrow> Inr (Popping, w)
      | Returns (None, q') \<Rightarrow> Inr (Returned, w\<lparr>tp_queue := q'\<rparr>)
      | Returns (Some t, q') \<Rightarrow> Inr (Holding t AtAssign, w\<lparr>tp_queue := q'\<rparr>))"
| "Worker_step (Holding t AtAssign) w =
     (case Task_TryUpdateState t ASSIGNED (heap w) of
        Inl e \<Rightarrow> Inl e
      | Inr (s, hp') \<Rightarrow> Inr (Holding t (AtRun s), w\<lparr>heap := hp'\<rparr>))"
| "Worker_step (Holding t (AtRun s)) w =
     (if s = ASSIGNED then Inr (Holding t AtComplete, w\<lparr>run_log := run_log w @ [t]\<rparr>)
      else if s = CANCELLED then Inr (Holding t AtComplete, w)
      else Inl CheckFailed)"
| "Worker_step (Holding t AtComplete) w =
     (case Task_TryUpdateState t COMPLETED (heap w) of
        Inl e \<Rightarrow> Inl e
      | Inr (s, hp') \<Rightarrow>
          if s = COMPLETED then Inr (Holding t AtNotify, w\<lparr>heap := hp'\<rparr>)
          else Inl CheckFailed)"
| "Worker_step (Holding t AtNotify) w =
     (case NotifyOfCompletion (tp_queue w) of
        Inl e \<Rightarrow> Inl e
      | Inr q' \<Rightarrow> Inr (Popping, w\<lparr>tp_queue := q'\<rparr>))"
| "Worker_step Returned w = Inr (Returned, w)"

text \<open>\<^verbatim>\<open>Threadpool::GoodThreadpoolSize\<close>; \<open>cpu\<close> is the count \<^verbatim>\<open>uv_cpu_info\<close> reports,
  \<open>None\<close> when it fails.\<close>

definition GoodThreadpoolSize :: "int option \<Rightarrow> int" where
  "GoodThreadpoolSize cpu = (case cpu of None \<Rightarrow> 4 | Some count \<Rightarrow> count)"

text \<open>
  \<^verbatim>\<open>Threadpool::Threadpool\<close> and \<^verbatim>\<open>Initialize\<close>; \<open>env\<close> is \<^verbatim>\<open>atoi\<close> of the variable
  \<^verbatim>\<open>UV_THREADPOOL_SIZE\<close>, \<open>None\<close> when it is not set. Every worker starts at
  \<^verbatim>\<open>BlockingPop\<close>.
\<close>

definition Threadpool_ctor :: "int \<Rightarrow> int option \<Rightarrow> int option \<Rightarrow> error + world" where
  "Threadpool_ctor threadpool_size env cpu =
     (let s1 = (if threadpool_size \<le> 0
                then (case env of Some v \<Rightarrow> v | None \<Rightarrow> threadpool_size)
                else threadpool_size);
          s2 = (if s1 \<le> 0 then GoodThreadpoolSize cpu else s1)
      in if s2 > 0
         then Inr \<lparr>heap = [], tp_queue = TaskQueue_ctor,
                   workers = replicate (nat s2) Popping, run_log = []\<rparr>
         else Inl CheckFailed)"

text \<open>
  \<^verbatim>\<open>Threadpool::Post\<close>: \<^verbatim>\<open>make_shared<TaskState>()\<close> allocates a new object at the end
  of the heap; the value \<^verbatim>\<open>Push\<close> returns is ignored; the handle is returned.
\<close>

definition Post :: "Task \<Rightarrow> world \<Rightarrow> error + (nat option \<times> world)" where
  "Post t w =
     (let h = length (heap w);
          hp = heap w @ [TaskState_ctor];
          t' = SetTaskState t (Some h)
      in (case Push (tp_queue w) t' hp of
            Inl e \<Rightarrow> Inl e
          | Inr (pushed, q', hp') \<Rightarrow> Inr (Some h, w\<lparr>heap := hp', tp_queue := q'\<rparr>)))"

text \<open>\<^verbatim>\<open>Threadpool::QueueLength\<close> and \<^verbatim>\<open>NWorkers\<close>\<close>

definition QueueLength :: "world \<Rightarrow> int" where
  "QueueLength w = Length (tp_queue w)"

definition NWorkers :: "world \<Rightarrow> int" where
  "NWorkers w = int (length (workers w))"

text \<open>
  What the threads of the process do to a threadpool, one atomic action at a time:
  \<^item> \<open>Work i\<close>: worker \<open>i\<close> takes its next step;
  \<^item> \<open>DoPost t\<close>: some thread calls \<^verbatim>\<open>Threadpool::Post\<close>;
  \<^item> \<open>DoCancel h\<close>: a holder of the handle \<open>h\<close> calls \<^verbatim>\<open>TaskState::Cancel\<close> (a handle
    that was never allocated has no holder: nothing happens);
  \<^item> \<open>DoStop\<close>: \<^verbatim>\<open>queue_.Stop()\<close>, the first statement of \<^verbatim>\<open>Threadpool::~Threadpool\<close>,
    which then joins the workers, that is, waits until each is \<open>Returned\<close>.
  An interleaving of the threads is a list of such events.
\<close>

datatype event = Work nat | DoPost Task | DoCancel nat | DoStop

fun step :: "event \<Rightarrow> world \<Rightarrow> error + world" where
  "step (Work i) w =
     (if i < length (workers w)
      then (case Worker_step (workers w ! i) w of
              Inl e \<Rightarrow> Inl e
            | Inr (k, w') \<Rightarrow> Inr (w'\<lparr>workers := (workers w')[i := k]\<rparr>))
      else Inr w)"
| "step (DoPost t) w = (case Post t w of Inl e \<Rightarrow> Inl e | Inr (h, w') \<Rightarrow> Inr w')"
| "step (DoCancel h) w =
     (if h < length (heap w)
      then (case Cancel (heap w ! h) of (ok, ts') \<Rightarrow> Inr (w\<lparr>heap := (heap w)[h := ts']\<rparr>))
      else Inr w)"
| "step DoStop w = Inr (w\<lparr>tp_queue := Stop (tp_queue w)\<rparr>)"

fun exec :: "event list \<Rightarrow> world \<Rightarrow> error + world" where
  "exec [] w = Inr w"
| "exec (e # es) w = (case step e w of Inl err \<Rightarrow> Inl err | Inr w' \<Rightarrow> exec es w')"

text \<open>\<^verbatim>\<open>Threadpool::~Threadpool\<close> returns once every worker has been joined.\<close>

definition joined :: "world \<Rightarrow> bool" where
  "joined w = list_all (\<lambda>k. k = Returned) (workers w)"

section \<open>LibuvExecutor (node\_threadpool.cc)\<close>

text \<open>
  \<^verbatim>\<open>class LibuvTaskData\<close> holds the handle; a \<^verbatim>\<open>uv_work_t\<close> request is seen through its
  cookie \<^verbatim>\<open>reserved[0]\<close>, a \<^verbatim>\<open>LibuvTaskData*\<close> or null.
\<close>

record LibuvTaskData =
  data_state :: nat

record uv_work_t =
  reserved0 :: "LibuvTaskData option"

text \<open>\<^verbatim>\<open>LibuvExecutor::Cancel\<close>: \<^verbatim>\<open>task_state->Cancel()\<close> on the object behind the handle.\<close>

definition LibuvExecutor_Cancel ::
    "nat \<Rightarrow> TaskState list \<Rightarrow> error + (bool \<times> TaskState list)" where
  "LibuvExecutor_Cancel h hp =
     (if h < length hp
      then (case Cancel (hp ! h) of (ok, ts') \<Rightarrow> Inr (ok, hp[h := ts']))
      else Inl NullPointer)"

text \<open>
  \<^verbatim>\<open>LibuvExecutor::uv_executor_cancel\<close>. The error codes \<^verbatim>\<open>UV_EINVAL\<close> and \<^verbatim>\<open>UV_EBUSY\<close>
  are macros of libuv's headers, which are not part of the sources: they are parameters.
\<close>

definition uv_executor_cancel ::
    "int \<Rightarrow> int \<Rightarrow> uv_work_t option \<Rightarrow> TaskState list \<Rightarrow> error + (int \<times> TaskState list)" where
  "uv_executor_cancel UV_EINVAL UV_EBUSY req hp =
     (case req of
        None \<Rightarrow> Inr (UV_EINVAL, hp)
      | Some r \<Rightarrow>
          (case reserved0 r of
             None \<Rightarrow> Inr (UV_EINVAL, hp)
           | Some task_data \<Rightarrow>
               (case LibuvExecutor_Cancel (data_state task_data) hp of
                  Inl e \<Rightarrow> Inl e
                | Inr (ok, hp') \<Rightarrow> if ok then Inr (0, hp') else Inr (UV_EBUSY, hp'))))"

section \<open>Notions used to state the properties of the threadpool\<close>

text \<open>The state of the \<open>TaskState\<close> object of a task, if the task has one.\<close>

definition st :: "TaskState list \<Rightarrow> Task \<Rightarrow> State option" where
  "st hp t =
     (case task_state t of
        None \<Rightarrow> None
      | Some h \<Rightarrow> if h < length hp then Some (state (hp ! h)) else None)"

text \<open>
  What holds of the task in a worker's hands at each point of the loop body: popped and
  not yet assigned, it is \<open>QUEUED\<close> or \<open>CANCELLED\<close>; from the assignment to the
  completion it is \<open>ASSIGNED\<close> or \<open>CANCELLED\<close>, and the local \<^verbatim>\<open>task_state\<close> is one
  of the two; before the notification it is \<open>COMPLETED\<close>.
\<close>

fun worker_ok :: "TaskState list \<Rightarrow> Worker \<Rightarrow> bool" where
  "worker_ok hp Popping = True"
| "worker_ok hp Returned = True"
| "worker_ok hp (Holding t AtAssign) = (st hp t = Some QUEUED \<or> st hp t = Some CANCELLED)"
| "worker_ok hp (Holding t (AtRun s)) =
     ((s = ASSIGNED \<or> s = CANCELLED) \<and> (st hp t = Some ASSIGNED \<or> st hp t = Some CANCELLED))"
| "worker_ok hp (Holding t AtComplete) = (st hp t = Some ASSIGNED \<or> st hp t = Some CANCELLED)"
| "worker_ok hp (Holding t AtNotify) = (st hp t = Some COMPLETED)"

fun is_holding :: "Worker \<Rightarrow> bool" where
  "is_holding (Holding t pc) = True"
| "is_holding Popping = False"
| "is_holding Returned = False"

text \<open>
  The invariant of a threadpool:
  \<^item> there is a worker;
  \<^item> the queued tasks have distinct \<open>TaskState\<close> objects, each \<open>QUEUED\<close> or
    \<open>CANCELLED\<close>;
  \<^item> every worker is at a point that fits the state of its task;
  \<^item> no \<open>TaskState\<close> object belongs to two tasks among those queued or held;
  \<^item> \<^verbatim>\<open>outstanding_tasks_\<close> counts the tasks queued or held;
  \<^item> a worker returns only from a stopped, empty queue.
\<close>

definition queue_ok :: "world \<Rightarrow> bool" where
  "queue_ok w \<longleftrightarrow>
     distinct (map task_state (queue (tp_queue w)))
     \<and> (\<forall>t \<in> set (queue (tp_queue w)).
           st (heap w) t = Some QUEUED \<or> st (heap w) t = Some CANCELLED)"

definition workers_ok :: "world \<Rightarrow> bool" where
  "workers_ok w \<longleftrightarrow> (\<forall>j < length (workers w). worker_ok (heap w) (workers w ! j))"

definition separate :: "world \<Rightarrow> bool" where
  "separate w \<longleftrightarrow>
     (\<forall>t \<in> set (queue (tp_queue w)). \<forall>j < length (workers w). \<forall>t' pc.
        workers w ! j = Holding t' pc \<longrightarrow> task_state t \<noteq> task_state t')
     \<and> (\<forall>i < length (workers w). \<forall>j < length (workers w). \<forall>t pc t' pc'.
          i \<noteq> j \<and> workers w ! i = Holding t pc \<and> workers w ! j = Holding t' pc'
          \<longrightarrow> task_state t \<noteq> task_state t')"

definition counted :: "world \<Rightarrow> bool" where
  "counted w \<longleftrightarrow>
     outstanding_tasks (tp_queue w)
       = int (length (queue (tp_queue w))) + int (length (filter is_holding (workers w)))"

definition drained :: "world \<Rightarrow> bool" where
  "drained w \<longleftrightarrow>
     ((\<exists>j < length (workers w). workers w ! j = Returned)
        \<longrightarrow> stopped (tp_queue w) \<and> queue (tp_queue w) = [])"

definition pool_inv :: "world \<Rightarrow> bool" where
  "pool_inv w \<longleftrightarrow>
     workers w \<noteq> [] \<and> queue_ok w \<and> workers_ok w \<and> separate w \<and> counted w \<and> drained w"

text \<open>The handle \<open>h\<close> belongs to a task that is queued or in a worker's hands.\<close>

definition in_flight :: "nat \<Rightarrow> world \<Rightarrow> bool" where
  "in_flight h w \<longleftrightarrow>
     (\<exists>t \<in> set (queue (tp_queue w)). task_state t = Some h)
     \<or> (\<exists>j < length (workers w). \<exists>t pc. workers w ! j = Holding t pc \<and> task_state t = Some h)"

text \<open>The task behind the handle \<open>h\<close> is still with the pool, or it is \<open>COMPLETED\<close>.\<close>

definition settled :: "nat \<Rightarrow> world \<Rightarrow> bool" where
  "settled h w \<longleftrightarrow>
     in_flight h w \<or> (h < length (heap w) \<and> state (heap w ! h) = COMPLETED)"

text \<open>The task \<open>t\<close> has been run, or it is on its way to being run: queued and
  \<open>QUEUED\<close>, popped and \<open>QUEUED\<close>, or assigned.\<close>

definition will_run :: "Task \<Rightarrow> world \<Rightarrow> bool" where
  "will_run t w \<longleftrightarrow>
     t \<in> set (run_log w)
     \<or> (t \<in> set (queue (tp_queue w)) \<and> st (heap w) t = Some QUEUED)
     \<or> (\<exists>j < length (workers w). workers w ! j = Holding t AtAssign \<and> st (heap w) t = Some QUEUED)
     \<or> (\<exists>j < length (workers w). workers w ! j = Holding t (AtRun ASSIGNED))"

text \<open>The pool has nothing to do with the handle \<open>h\<close>: no task queued, held or run
  refers to it.\<close>

definition detached :: "nat \<Rightarrow> world \<Rightarrow> bool" where
  "detached h w \<longleftrightarrow>
     h < length (heap w) \<and> \<not> in_flight h w \<and> (\<forall>t \<in> set (run_log w). task_state t \<noteq> Some h)"

text \<open>Every task in the log of runs has a \<open>TaskState\<close> object.\<close>

definition logged_ok :: "world \<Rightarrow> bool" where
  "logged_ok w \<longleftrightarrow>
     (\<forall>t \<in> set (run_log w). \<exists>h. task_state t = Some h \<and> h < length (heap w))"

text \<open>The number of steps a worker is away from its next \<^verbatim>\<open>BlockingPop\<close> (plus one), and
  from returning when the queue is stopped.\<close>

fun rank :: "Worker \<Rightarrow> nat" where
  "rank Returned = 0"
| "rank Popping = 1"
| "rank (Holding t AtNotify) = 2"
| "rank (Holding t AtComplete) = 3"
| "rank (Holding t (AtRun s)) = 4"
| "rank (Holding t AtAssign) = 5"

definition steps_to_return :: "nat \<Rightarrow> world \<Rightarrow> nat" where
  "steps_to_return i w = 5 * length (queue (tp_queue w)) + rank (workers w ! i)"

section \<open>Delayed tasks and foreground tasks (node\_platform.cc)\<close>

subsection \<open>The sum of two doubles\<close>

text \<open>
  A \<^verbatim>\<open>double\<close> is an IEEE 754 binary64 number: a significand of 53 bits and a least
  normal exponent of \<open>- 1022\<close>. A finite \<^verbatim>\<open>double\<close> is taken as the real number it
  denotes, and the sum of two of them is the exact sum rounded to the nearest
  \<^verbatim>\<open>double\<close>, a tie going to the one whose significand is even.

  \<open>ilog2 x\<close> is the binary exponent of a positive \<open>x\<close>, the \<open>k\<close> with
  \<open>2\<^sup>k \<le> x < 2\<^sup>k\<^sup>+\<^sup>1\<close>; \<open>ulp_exponent x\<close> is the exponent of the spacing of
  the \<^verbatim>\<open>double\<close>s around \<open>x\<close> (that of the subnormal numbers below
  \<open>2\<^sup>-\<^sup>1\<^sup>0\<^sup>2\<^sup>2\<close>); \<open>nearest_even\<close> rounds to the nearest whole number, a tie
  going to the even one; \<open>round_double\<close> rounds to the nearest multiple of the spacing.
  A result of \<open>2\<^sup>1\<^sup>0\<^sup>2\<^sup>4\<close> or more stands for an infinity.
\<close>

definition ilog2 :: "real \<Rightarrow> int" where
  "ilog2 x = (if 1 \<le> x then bitlen \<lfloor>x\<rfloor> - 1 else - bitlen (\<lceil>1 / x\<rceil> - 1))"

definition ulp_exponent :: "real \<Rightarrow> int" where
  "ulp_exponent x = max (ilog2 \<bar>x\<bar>) (- 1022) - 52"

definition nearest_even :: "real \<Rightarrow> int" where
  "nearest_even y =
     (if y - of_int \<lfloor>y\<rfloor> < 1 / 2 then \<lfloor>y\<rfloor>
      else if 1 / 2 < y - of_int \<lfloor>y\<rfloor> then \<lfloor>y\<rfloor> + 1
      else if even \<lfloor>y\<rfloor> then \<lfloor>y\<rfloor> else \<lfloor>y\<rfloor> + 1)"

definition round_double :: "real \<Rightarrow> real" where
  "round_double x =
     (if x = 0 then 0
      else of_int (nearest_even (x / 2 powi ulp_exponent x)) * 2 powi ulp_exponent x)"

text \<open>The real numbers that are finite \<^verbatim>\<open>double\<close>s.\<close>

definition is_double :: "real \<Rightarrow> bool" where
  "is_double x \<longleftrightarrow> round_double x = x \<and> \<bar>x\<bar> < 2 ^ 1024"

subsection \<open>The delay in milliseconds\<close>

text \<open>
  The expression \<^verbatim>\<open>static_cast<uint64_t>(delay + 0.5) * 1000\<close>, written out in both
  \<^verbatim>\<open>ScheduleTask::Run\<close> and \<^verbatim>\<open>FlushForegroundTasksInternal\<close>. The sum is the sum of
  two \<^verbatim>\<open>double\<close>s. The conversion of a \<^verbatim>\<open>double\<close> to \<^verbatim>\<open>uint64_t\<close> truncates towards
  zero, and is undefined when the truncated value is not a \<^verbatim>\<open>uint64_t\<close>, as it is for
  an infinity; the product is taken in \<^verbatim>\<open>uint64_t\<close> and wraps around.

  The argument is the real number that the delay denotes. A delay that is an infinity or
  not a number denotes none: for these the conversion is undefined as well.
\<close>

definition delay_millis :: "real \<Rightarrow> error + 64 word" where
  "delay_millis delay_in_seconds =
     (let x = round_double (delay_in_seconds + 1 / 2)
      in if - 1 < x \<and> x < 2 ^ 64
         then Inr (word_of_int (if 0 \<le> x then \<lfloor>x\<rfloor> else \<lceil>x\<rceil>) * 1000)
         else Inl UndefinedCast)"

text \<open>
  Half-even rounding of a number of seconds as the specification words it in section 4.6
  ("half-even rounding on the fractional part"), to be compared with \<open>delay_millis\<close>.
\<close>

definition round_half_even :: "real \<Rightarrow> int" where
  "round_half_even d =
     (if frac d < 1 / 2 then \<lfloor>d\<rfloor>
      else if frac d > 1 / 2 then \<lfloor>d\<rfloor> + 1
      else if even \<lfloor>d\<rfloor> then \<lfloor>d\<rfloor> else \<lfloor>d\<rfloor> + 1)"

text \<open>
  A \<^verbatim>\<open>v8::Task\<close>. Its \<^verbatim>\<open>Run()\<close> is code of the engine; what it can do to the
  structures modelled here is post further tasks, so a task is a name together with the
  posts its \<^verbatim>\<open>Run()\<close> makes, in order.
\<close>

datatype v8_Task = v8_Task (name: nat) (posts: "post list")
  and post = CallPostTask v8_Task | CallPostDelayedTask v8_Task real

text \<open>
  A \<^verbatim>\<open>uv_timer_t\<close> as \<^verbatim>\<open>uv_timer_start(handle, cb, timeout, repeat)\<close> leaves it: the
  timeout and the repeat interval in milliseconds (repeat 0 is a one-shot timer).
\<close>

record uv_timer_t =
  timeout_ms :: "64 word"
  repeat_ms :: "64 word"

text \<open>
  The class template \<^verbatim>\<open>TaskQueue<T>\<close> of node\_platform.cc: \<^verbatim>\<open>task_queue_\<close>,
  \<^verbatim>\<open>outstanding_tasks_\<close> and \<^verbatim>\<open>stopped_\<close> (the last two carry the prefix \<open>t_\<close>
  here, the threadpool's queue has fields of the same names). Only the operations that
  the scheduler and the runner use are given.
\<close>

record 'a TaskQueueT =
  task_queue :: "'a list"
  t_outstanding_tasks :: int
  t_stopped :: bool

definition TaskQueueT_ctor :: "'a TaskQueueT" where
  "TaskQueueT_ctor = \<lparr>task_queue = [], t_outstanding_tasks = 0, t_stopped = False\<rparr>"

text \<open>\<^verbatim>\<open>TaskQueue<T>::Push\<close>\<close>

definition PushT :: "'a \<Rightarrow> 'a TaskQueueT \<Rightarrow> 'a TaskQueueT" where
  "PushT task q =
     q\<lparr>t_outstanding_tasks := t_outstanding_tasks q + 1, task_queue := task_queue q @ [task]\<rparr>"

text \<open>\<^verbatim>\<open>TaskQueue<T>::Pop\<close>\<close>

definition PopT :: "'a TaskQueueT \<Rightarrow> 'a option \<times> 'a TaskQueueT" where
  "PopT q = (case task_queue q of [] \<Rightarrow> (None, q) | t # rest \<Rightarrow> (Some t, q\<lparr>task_queue := rest\<rparr>))"

text \<open>\<^verbatim>\<open>TaskQueue<T>::PopAll\<close>: the contents are swapped out, the queue is left empty.\<close>

definition PopAll :: "'a TaskQueueT \<Rightarrow> 'a list \<times> 'a TaskQueueT" where
  "PopAll q = (task_queue q, q\<lparr>task_queue := []\<rparr>)"

subsection \<open>WorkerThreadsTaskRunner::DelayedTaskScheduler\<close>

text \<open>
  The commands in the scheduler's queue \<^verbatim>\<open>tasks_\<close> (\<^verbatim>\<open>ScheduleTask\<close> with its task and
  \<^verbatim>\<open>delay_in_seconds_\<close>, and \<^verbatim>\<open>StopTask\<close>), and the scheduler: \<^verbatim>\<open>tasks_\<close> (here \<open>sched_tasks\<close>), the timers
  in \<^verbatim>\<open>timers_\<close>, each with the task in its \<^verbatim>\<open>data\<close>, and the async handle
  \<^verbatim>\<open>flush_tasks_\<close>, seen as the number of \<^verbatim>\<open>uv_async_send\<close> calls and whether it has
  been closed. \<^verbatim>\<open>uv_timer_init\<close> and \<^verbatim>\<open>uv_timer_start\<close> are taken to succeed.

  \<^verbatim>\<open>FlushTasks\<close> is the callback of the scheduler's own loop, which runs in the thread
  that \<^verbatim>\<open>Start()\<close> creates. No function of node\_platform.cc calls \<^verbatim>\<open>Start()\<close>:
  the constructor of \<^verbatim>\<open>WorkerThreadsTaskRunner\<close> only creates the scheduler.
\<close>

datatype sched_task = ScheduleTask v8_Task real | StopTask

record DelayedTaskScheduler =
  sched_tasks :: "sched_task TaskQueueT"
  timers :: "(uv_timer_t \<times> v8_Task) list"
  async_sends :: nat
  async_closed :: bool

text \<open>\<^verbatim>\<open>DelayedTaskScheduler::PostDelayedTask\<close>\<close>

definition Scheduler_PostDelayedTask ::
    "v8_Task \<Rightarrow> real \<Rightarrow> DelayedTaskScheduler \<Rightarrow> DelayedTaskScheduler" where
  "Scheduler_PostDelayedTask task delay_in_seconds s =
     s\<lparr>sched_tasks := PushT (ScheduleTask task delay_in_seconds) (sched_tasks s),
       async_sends := async_sends s + 1\<rparr>"

text \<open>\<^verbatim>\<open>ScheduleTask::Run\<close> and \<^verbatim>\<open>StopTask::Run\<close> (which takes every timer's task, dropping
  it, and closes the async handle).\<close>

fun sched_task_Run :: "sched_task \<Rightarrow> DelayedTaskScheduler \<Rightarrow> error + DelayedTaskScheduler" where
  "sched_task_Run (ScheduleTask task delay_in_seconds) s =
     (case delay_millis delay_in_seconds of
        Inl e \<Rightarrow> Inl e
      | Inr delay_ms \<Rightarrow>
          Inr (s\<lparr>timers := timers s @ [(\<lparr>timeout_ms = delay_ms, repeat_ms = 0\<rparr>, task)]\<rparr>))"
| "sched_task_Run StopTask s = Inr (s\<lparr>timers := [], async_closed := True\<rparr>)"

text \<open>\<^verbatim>\<open>DelayedTaskScheduler::FlushTasks\<close>: pop and run until the queue is empty.\<close>

function FlushTasks :: "DelayedTaskScheduler \<Rightarrow> error + DelayedTaskScheduler" where
  "FlushTasks s =
     (case PopT (sched_tasks s) of
        (None, q') \<Rightarrow> Inr s
      | (Some task, q') \<Rightarrow>
          (case sched_task_Run task (s\<lparr>sched_tasks := q'\<rparr>) of
             Inl e \<Rightarrow> Inl e
           | Inr s' \<Rightarrow> FlushTasks s'))"
  by pat_completeness auto

lemma sched_task_Run_tasks: "sched_task_Run c s = Inr s' \<Longrightarrow> sched_tasks s' = sched_tasks s"
  by (cases c) (auto split: sum.splits)

termination FlushTasks
  by (relation "measure (\<lambda>s. length (task_queue (sched_tasks s)))")
     (auto simp: PopT_def split: list.splits dest!: sched_task_Run_tasks)

subsection \<open>PerIsolatePlatformData\<close>

text \<open>
  \<^verbatim>\<open>struct DelayedTask\<close>: the task, the \<^verbatim>\<open>timeout\<close> in seconds and the timer, \<open>None\<close>
  until it has been started. The back-reference \<^verbatim>\<open>platform_data\<close> to the runner that
  owns the task is left out.
\<close>

record DelayedTask =
  task :: v8_Task
  timeout :: real
  timer :: "uv_timer_t option"

text \<open>
  Modelled from the spec: the initial value of \<^verbatim>\<open>ref_count_\<close>, which is given in the
  class declaration in node\_platform.h, a file that is not among the sources. The
  specification counts registrations ("a refcount incremented at each
  engine-registration of the same instance. Unregistration decrements; on zero, the runner
  is shut down"), the runner being created by the first of them.
\<close>

definition ref_count_init :: int where
  "ref_count_init = 1"

text \<open>
  \<^verbatim>\<open>class PerIsolatePlatformData\<close>: \<^verbatim>\<open>loop_\<close> (the identity of the loop),
  \<^verbatim>\<open>flush_tasks_\<close> (a pointer to the async handle: \<open>None\<close> is null, \<open>Some n\<close> a
  handle on which \<^verbatim>\<open>uv_async_send\<close> has been called \<open>n\<close> times), the two queues, the
  scheduled delayed tasks and the reference count; \<open>executed\<close> is the log of the tasks
  that \<^verbatim>\<open>RunForegroundTask\<close> has run, in order.
\<close>

record PerIsolatePlatformData =
  loop :: nat
  flush_tasks :: "nat option"
  foreground_tasks :: "v8_Task TaskQueueT"
  foreground_delayed_tasks :: "DelayedTask TaskQueueT"
  scheduled_delayed_tasks :: "DelayedTask list"
  ref_count :: int
  executed :: "v8_Task list"

text \<open>The constructor (it makes no use of the isolate); \<^verbatim>\<open>uv_async_init\<close> is taken to
  succeed.\<close>

definition PerIsolatePlatformData_ctor :: "nat \<Rightarrow> nat \<Rightarrow> PerIsolatePlatformData" where
  "PerIsolatePlatformData_ctor isolate lp =
     \<lparr>loop = lp, flush_tasks = Some 0,
      foreground_tasks = TaskQueueT_ctor, foreground_delayed_tasks = TaskQueueT_ctor,
      scheduled_delayed_tasks = [], ref_count = ref_count_init, executed = []\<rparr>"

text \<open>\<^verbatim>\<open>PerIsolatePlatformData::PostTask\<close>\<close>

definition PostTask :: "v8_Task \<Rightarrow> PerIsolatePlatformData \<Rightarrow> error + PerIsolatePlatformData" where
  "PostTask t r =
     (case flush_tasks r of
        None \<Rightarrow> Inl CheckFailed
      | Some n \<Rightarrow>
          Inr (r\<lparr>foreground_tasks := PushT t (foreground_tasks r), flush_tasks := Some (n + 1)\<rparr>))"

text \<open>\<^verbatim>\<open>PerIsolatePlatformData::PostDelayedTask\<close>\<close>

definition PostDelayedTask ::
    "v8_Task \<Rightarrow> real \<Rightarrow> PerIsolatePlatformData \<Rightarrow> error + PerIsolatePlatformData" where
  "PostDelayedTask t delay_in_seconds r =
     (case flush_tasks r of
        None \<Rightarrow> Inl CheckFailed
      | Some n \<Rightarrow>
          Inr (r\<lparr>foreground_delayed_tasks :=
                    PushT \<lparr>task = t, timeout = delay_in_seconds, timer = None\<rparr>
                      (foreground_delayed_tasks r),
                 flush_tasks := Some (n + 1)\<rparr>))"

text \<open>What a task's \<^verbatim>\<open>Run()\<close> does to the runner: its posts, in order.\<close>

fun do_posts :: "post list \<Rightarrow> PerIsolatePlatformData \<Rightarrow> error + PerIsolatePlatformData" where
  "do_posts [] r = Inr r"
| "do_posts (CallPostTask t # ps) r =
     (case PostTask t r of Inl e \<Rightarrow> Inl e | Inr r' \<Rightarrow> do_posts ps r')"
| "do_posts (CallPostDelayedTask t d # ps) r =
     (case PostDelayedTask t d r of Inl e \<Rightarrow> Inl e | Inr r' \<Rightarrow> do_posts ps r')"

text \<open>\<^verbatim>\<open>PerIsolatePlatformData::RunForegroundTask(std::unique_ptr<Task>)\<close>: \<^verbatim>\<open>task->Run()\<close>
  inside the engine's scopes.\<close>

definition RunForegroundTask ::
    "v8_Task \<Rightarrow> PerIsolatePlatformData \<Rightarrow> error + PerIsolatePlatformData" where
  "RunForegroundTask t r = do_posts (posts t) (r\<lparr>executed := executed r @ [t]\<rparr>)"

text \<open>
  The first loop of \<^verbatim>\<open>FlushForegroundTasksInternal\<close>: pop each delayed task, start its
  timer with \<^verbatim>\<open>delay_millis\<close> and repeat 0, and move it to
  \<^verbatim>\<open>scheduled_delayed_tasks_\<close>; the flag is \<^verbatim>\<open>did_work\<close>.
\<close>

function flush_delayed ::
    "bool \<Rightarrow> PerIsolatePlatformData \<Rightarrow> error + (bool \<times> PerIsolatePlatformData)" where
  "flush_delayed did_work r =
     (case PopT (foreground_delayed_tasks r) of
        (None, q') \<Rightarrow> Inr (did_work, r)
      | (Some delayed, q') \<Rightarrow>
          (case delay_millis (timeout delayed) of
             Inl e \<Rightarrow> Inl e
           | Inr delay_ms \<Rightarrow>
               flush_delayed True
                 (r\<lparr>foreground_delayed_tasks := q',
                    scheduled_delayed_tasks := scheduled_delayed_tasks r @
                      [delayed\<lparr>timer := Some \<lparr>timeout_ms = delay_ms, repeat_ms = 0\<rparr>\<rparr>]\<rparr>)))"
  by pat_completeness auto
termination
  by (relation "measure (\<lambda>(did_work, r). length (task_queue (foreground_delayed_tasks r)))")
     (auto simp: PopT_def split: list.splits)

text \<open>The second loop: run the tasks of the local queue \<^verbatim>\<open>tasks\<close> from the front.\<close>

fun run_tasks ::
    "v8_Task list \<Rightarrow> bool \<Rightarrow> PerIsolatePlatformData \<Rightarrow> error + (bool \<times> PerIsolatePlatformData)" where
  "run_tasks [] did_work r = Inr (did_work, r)"
| "run_tasks (t # ts) did_work r =
     (case RunForegroundTask t r of
        Inl e \<Rightarrow> Inl e
      | Inr r' \<Rightarrow> run_tasks ts True r')"

text \<open>\<^verbatim>\<open>PerIsolatePlatformData::FlushForegroundTasksInternal\<close>\<close>

definition FlushForegroundTasksInternal ::
    "PerIsolatePlatformData \<Rightarrow> error + (bool \<times> PerIsolatePlatformData)" where
  "FlushForegroundTasksInternal r =
     (case flush_delayed False r of
        Inl e \<Rightarrow> Inl e
      | Inr (did_work, r1) \<Rightarrow>
          (case PopAll (foreground_tasks r1) of
             (tasks, q') \<Rightarrow> run_tasks tasks did_work (r1\<lparr>foreground_tasks := q'\<rparr>)))"

text \<open>\<^verbatim>\<open>PerIsolatePlatformData::CancelPendingDelayedTasks\<close>\<close>

definition CancelPendingDelayedTasks :: "PerIsolatePlatformData \<Rightarrow> PerIsolatePlatformData" where
  "CancelPendingDelayedTasks r = r\<lparr>scheduled_delayed_tasks := []\<rparr>"

text \<open>
  The loop \<^verbatim>\<open>while (FlushForegroundTasksInternal()) {}\<close> of \<^verbatim>\<open>Shutdown\<close>. Tasks may go
  on posting tasks, so the loop need not end: \<open>None\<close> is a loop that does not return.
\<close>

partial_function (option) flush_until_idle ::
    "PerIsolatePlatformData \<Rightarrow> (error + PerIsolatePlatformData) option" where
  "flush_until_idle r =
     (case FlushForegroundTasksInternal r of
        Inl e \<Rightarrow> Some (Inl e)
      | Inr (did_work, r') \<Rightarrow> if did_work then flush_until_idle r' else Some (Inr r'))"

text \<open>\<^verbatim>\<open>PerIsolatePlatformData::Shutdown\<close>\<close>

definition Shutdown :: "PerIsolatePlatformData \<Rightarrow> (error + PerIsolatePlatformData) option" where
  "Shutdown r =
     (case flush_tasks r of
        None \<Rightarrow> Some (Inr r)
      | Some n \<Rightarrow>
          (case flush_until_idle r of
             None \<Rightarrow> None
           | Some (Inl e) \<Rightarrow> Some (Inl e)
           | Some (Inr r') \<Rightarrow> Some (Inr ((CancelPendingDelayedTasks r')\<lparr>flush_tasks := None\<rparr>))))"

text \<open>\<^verbatim>\<open>PerIsolatePlatformData::ref\<close> and \<^verbatim>\<open>unref\<close> (which returns the new count).\<close>

definition ref :: "PerIsolatePlatformData \<Rightarrow> PerIsolatePlatformData" where
  "ref r = r\<lparr>ref_count := ref_count r + 1\<rparr>"

definition unref :: "PerIsolatePlatformData \<Rightarrow> int \<times> PerIsolatePlatformData" where
  "unref r = (ref_count r - 1, r\<lparr>ref_count := ref_count r - 1\<rparr>)"

subsection \<open>NodePlatform\<close>

text \<open>
  \<^verbatim>\<open>per_isolate_\<close> maps an isolate to a shared pointer to its runner. A key that is
  absent and a key with a null pointer are treated alike by every function
  (\<^verbatim>\<open>per_isolate_[isolate]\<close> creates the null entry on lookup): both are \<open>None\<close>.
\<close>

record NodePlatform =
  per_isolate :: "nat \<rightharpoonup> PerIsolatePlatformData"

text \<open>\<^verbatim>\<open>NodePlatform::RegisterIsolate\<close>\<close>

definition RegisterIsolate :: "nat \<Rightarrow> nat \<Rightarrow> NodePlatform \<Rightarrow> error + NodePlatform" where
  "RegisterIsolate isolate lp p =
     (case per_isolate p isolate of
        Some existing \<Rightarrow>
          if lp = loop existing
          then Inr (p\<lparr>per_isolate := (per_isolate p)(isolate \<mapsto> ref existing)\<rparr>)
          else Inl CheckFailed
      | None \<Rightarrow>
          Inr (p\<lparr>per_isolate := (per_isolate p)(isolate \<mapsto> PerIsolatePlatformData_ctor isolate lp)\<rparr>))"

text \<open>\<^verbatim>\<open>NodePlatform::UnregisterIsolate\<close>\<close>

definition UnregisterIsolate :: "nat \<Rightarrow> NodePlatform \<Rightarrow> (error + NodePlatform) option" where
  "UnregisterIsolate isolate p =
     (case per_isolate p isolate of
        None \<Rightarrow> Some (Inl CheckFailed)
      | Some existing \<Rightarrow>
          (case unref existing of
             (n, existing') \<Rightarrow>
               if n = 0
               then (case Shutdown existing' of
                       None \<Rightarrow> None
                     | Some (Inl e) \<Rightarrow> Some (Inl e)
                     | Some (Inr gone) \<Rightarrow>
                         Some (Inr (p\<lparr>per_isolate := (per_isolate p)(isolate := None)\<rparr>)))
               else Some (Inr (p\<lparr>per_isolate := (per_isolate p)(isolate \<mapsto> existing')\<rparr>))))"

text \<open>\<^verbatim>\<open>NodePlatform::ForIsolate\<close>\<close>

definition ForIsolate :: "nat \<Rightarrow> NodePlatform \<Rightarrow> error + PerIsolatePlatformData" where
  "ForIsolate isolate p =
     (case per_isolate p isolate of None \<Rightarrow> Inl CheckFailed | Some d \<Rightarrow> Inr d)"

subsection \<open>Notions used to state the properties\<close>

text \<open>
  Round-half-up of a number of seconds as the specification words it in section 8
  ("round-half-up on fractional seconds"), to be compared with \<open>delay_millis\<close>.
\<close>

definition round_half_up :: "real \<Rightarrow> int" where
  "round_half_up d = (if frac d < 1 / 2 then \<lfloor>d\<rfloor> else \<lfloor>d\<rfloor> + 1)"

text \<open>The delays for which the conversion to \<^verbatim>\<open>uint64_t\<close> is defined. Every
  \<^verbatim>\<open>double\<close> from \<open>- 1 / 2\<close> up to the largest one below \<open>2\<^sup>6\<^sup>4\<close> is among them.\<close>

definition delay_ok :: "real \<Rightarrow> bool" where
  "delay_ok d \<longleftrightarrow> (case delay_millis d of Inl e \<Rightarrow> False | Inr ms \<Rightarrow> True)"

text \<open>
  The delays from 0 up to the largest \<^verbatim>\<open>double\<close> below \<open>2\<^sup>6\<^sup>4\<close>, but for those at
  which the sum \<^verbatim>\<open>delay + 0.5\<close> is rounded upwards to a whole number: the
  \<^verbatim>\<open>double\<close> next below 0.5, which is \<open>1 / 2 - 2\<^sup>-\<^sup>5\<^sup>4\<close>, and the odd whole numbers
  from \<open>2\<^sup>5\<^sup>2\<close> to \<open>2\<^sup>5\<^sup>3\<close>.
\<close>

definition regular_delay :: "real \<Rightarrow> bool" where
  "regular_delay d \<longleftrightarrow>
     is_double d \<and> 0 \<le> d \<and> d + 1 / 2 < 2 ^ 64
     \<and> d \<noteq> 1 / 2 - 1 / 2 ^ 54
     \<and> \<not> (2 ^ 52 \<le> d \<and> d < 2 ^ 53 \<and> odd \<lfloor>d\<rfloor>)"

text \<open>A delayed task whose one-shot timer has been started with the timeout that
  \<open>ms\<close> gives for its delay.\<close>

definition armed :: "(real \<Rightarrow> 64 word) \<Rightarrow> DelayedTask \<Rightarrow> DelayedTask" where
  "armed ms d = d\<lparr>timer := Some \<lparr>timeout_ms = ms (timeout d), repeat_ms = 0\<rparr>\<rparr>"

text \<open>The tasks that a list of posts puts into the foreground queue and into the
  queue of delayed foreground tasks.\<close>

fun posted_tasks :: "post list \<Rightarrow> v8_Task list" where
  "posted_tasks [] = []"
| "posted_tasks (CallPostTask t # ps) = t # posted_tasks ps"
| "posted_tasks (CallPostDelayedTask t d # ps) = posted_tasks ps"

fun posted_delayed :: "post list \<Rightarrow> DelayedTask list" where
  "posted_delayed [] = []"
| "posted_delayed (CallPostTask t # ps) = posted_delayed ps"
| "posted_delayed (CallPostDelayedTask t d # ps) =
     \<lparr>task = t, timeout = d, timer = None\<rparr> # posted_delayed ps"

section \<open>Properties of TaskState\<close>

lemma ValidStateTransition_legal:
  "ValidStateTransition a b \<longleftrightarrow> (a, b) \<in> legal_transitions"
  by (cases a; cases b) (simp_all add: legal_transitions_def)

lemma not_legal_refl: "(a, a) \<notin> legal_transitions"
  by (cases a) (simp_all add: legal_transitions_def)

lemma TryUpdateState_eq:
  "TryUpdateState ts n =
     (if ValidStateTransition (state ts) n then (n, ts\<lparr>state := n\<rparr>) else (state ts, ts))"
  by (simp add: TryUpdateState_def)

lemma walk_successively: "walk xs = successively (\<lambda>a b. (a, b) \<in> legal_transitions) xs"
  by (induction xs rule: walk.induct) simp_all

lemma state_path_steps:
  "successively (\<lambda>a b. b = a \<or> (a, b) \<in> legal_transitions) (state_path ts rs)"
  unfolding state_path_def
proof (induction rs arbitrary: ts)
  case Nil
  show ?case by simp
next
  case (Cons r rs)
  show ?case
  proof (cases "ValidStateTransition (state ts) r")
    case True
    with Cons [of "ts\<lparr>state := r\<rparr>"] show ?thesis
      by (simp add: TryUpdateState_eq ValidStateTransition_legal)
  next
    case False
    with Cons [of ts] show ?thesis
      by (simp add: TryUpdateState_eq)
  qed
qed

lemma walk_state_path: "walk (remdups_adj (state_path ts rs))"
proof -
  let ?E = "\<lambda>a b. (a, b) \<in> legal_transitions"
  let ?P = "\<lambda>a b. b = a \<or> ?E a b"
  let ?xs = "remdups_adj (state_path ts rs)"
  have "successively ?P ?xs"
    using state_path_steps by (rule successively_remdups_adjI)
  moreover have "successively (\<noteq>) ?xs"
    using distinct_adj_remdups_adj [of "state_path ts rs"] by (simp add: distinct_adj_def)
  ultimately have "successively ?E ?xs"
    unfolding successively_conv_nth by metis
  then show ?thesis by (simp add: walk_successively)
qed


lemma TryUpdateState_returns_post_state:
  "fst (TryUpdateState ts n) = state (snd (TryUpdateState ts n))"
  by (simp add: TryUpdateState_def Let_def)

text \<open>
  Claim C1. \<open>ValidStateTransition\<close> is the specification's transition graph, out of
  which \<open>COMPLETED\<close> has no edge. A \<open>TryUpdateState\<close> call writes the requested state
  exactly when the pair (current, requested) is an edge, and leaves the object unchanged
  otherwise; it returns the state after the operation. For every sequence of calls, each
  step of the state path is an edge or leaves the state unchanged, so the path (equal
  successive states merged) is a walk on the graph.
\<close>

theorem C1_try_transition_walk:
  "(ValidStateTransition a b \<longleftrightarrow> (a, b) \<in> legal_transitions)
   \<and> (COMPLETED, b) \<notin> legal_transitions
   \<and> TryUpdateState ts n =
       (if (state ts, n) \<in> legal_transitions then (n, ts\<lparr>state := n\<rparr>) else (state ts, ts))
   \<and> fst (TryUpdateState ts n) = state (snd (TryUpdateState ts n))
   \<and> successively (\<lambda>s s'. s' = s \<or> (s, s') \<in> legal_transitions) (state_path ts rs)
   \<and> walk (remdups_adj (state_path ts rs))"
proof -
  have "(COMPLETED, b) \<notin> legal_transitions"
    by (simp add: legal_transitions_def)
  moreover have "TryUpdateState ts n =
       (if (state ts, n) \<in> legal_transitions then (n, ts\<lparr>state := n\<rparr>) else (state ts, ts))"
    by (simp add: TryUpdateState_eq ValidStateTransition_legal)
  ultimately show ?thesis
    using ValidStateTransition_legal TryUpdateState_returns_post_state
      state_path_steps walk_state_path by blast
qed

theorem C1_try_transition_walk_witness:
  "state_path \<lparr>state = INITIAL\<rparr> [ASSIGNED, QUEUED, INITIAL, ASSIGNED, CANCELLED, QUEUED, COMPLETED, CANCELLED]
     = [INITIAL, INITIAL, QUEUED, QUEUED, ASSIGNED, CANCELLED, CANCELLED, COMPLETED, COMPLETED]
   \<and> walk [INITIAL, QUEUED, ASSIGNED, CANCELLED, COMPLETED]
   \<and> TryUpdateState \<lparr>state = QUEUED\<rparr> ASSIGNED = (ASSIGNED, \<lparr>state = ASSIGNED\<rparr>)
   \<and> TryUpdateState \<lparr>state = QUEUED\<rparr> COMPLETED = (QUEUED, \<lparr>state = QUEUED\<rparr>)"
proof -
  let ?ts = "\<lparr>state = INITIAL\<rparr>"
  let ?rs = "[ASSIGNED, QUEUED, INITIAL, ASSIGNED, CANCELLED, QUEUED, COMPLETED, CANCELLED]"
  have path: "state_path ?ts ?rs
     = [INITIAL, INITIAL, QUEUED, QUEUED, ASSIGNED, CANCELLED, CANCELLED, COMPLETED, COMPLETED]"
    by (simp add: state_path_def TryUpdateState_def)
  have e1: "(QUEUED, ASSIGNED) \<in> legal_transitions" and e2: "(QUEUED, COMPLETED) \<notin> legal_transitions"
    by (simp_all add: legal_transitions_def)
  from C1_try_transition_walk [of QUEUED ASSIGNED ?ts QUEUED ?rs]
  have "walk (remdups_adj (state_path ?ts ?rs))" by blast
  moreover from C1_try_transition_walk [of QUEUED ASSIGNED "\<lparr>state = QUEUED\<rparr>" ASSIGNED "[]"] e1
  have "TryUpdateState \<lparr>state = QUEUED\<rparr> ASSIGNED = (ASSIGNED, \<lparr>state = ASSIGNED\<rparr>)" by simp
  moreover from C1_try_transition_walk [of QUEUED ASSIGNED "\<lparr>state = QUEUED\<rparr>" COMPLETED "[]"] e2
  have "TryUpdateState \<lparr>state = QUEUED\<rparr> COMPLETED = (QUEUED, \<lparr>state = QUEUED\<rparr>)" by simp
  ultimately show ?thesis using path by simp
qed

section \<open>Properties of TaskQueue and LibuvExecutor\<close>

lemma Cancel_eq:
  "Cancel ts = (if state ts = COMPLETED then (False, ts) else (True, ts\<lparr>state := CANCELLED\<rparr>))"
  by (cases "state ts") (simp_all add: Cancel_def TryUpdateState_def)

lemma TaskState_update_same: "state r = s \<Longrightarrow> r\<lparr>state := s\<rparr> = r"
  by simp

lemma Push_stopped: "stopped q \<Longrightarrow> Push q t hp = Inr (False, q, hp)"
  by (simp add: Push_def)

lemma Push_open:
  assumes "\<not> stopped q" and "task_state t = Some h" and "h < length hp"
    and "state (hp ! h) \<in> {INITIAL, QUEUED, CANCELLED}"
  shows "Push q t hp =
     Inr (True,
          q\<lparr>queue := queue q @ [t],
            outstanding_tasks := outstanding_tasks q + 1,
            task_available_signals := task_available_signals q + 1\<rparr>,
          hp[h := (hp ! h)\<lparr>state := (if state (hp ! h) = CANCELLED then CANCELLED else QUEUED)\<rparr>])"
  using assms
  by (auto simp: Push_def Task_TryUpdateState_def TryUpdateState_def TaskState_update_same)

text \<open>Outside these states the \<^verbatim>\<open>CHECK\<close> in \<open>Push\<close> fails. \<open>Post\<close>, the only caller
  of \<open>Push\<close>, always passes a task with a new \<open>TaskState\<close>.\<close>

lemma Push_check_fails:
  assumes "\<not> stopped q" and "task_state t = Some h" and "h < length hp"
    and "state (hp ! h) = ASSIGNED \<or> state (hp ! h) = COMPLETED"
  shows "Push q t hp = Inl CheckFailed"
  using assms
  by (auto simp: Push_def Task_TryUpdateState_def TryUpdateState_def)

lemma Push_from_Post:
  assumes "\<not> stopped q"
  shows "Push q (SetTaskState t (Some (length hp))) (hp @ [TaskState_ctor]) =
     Inr (True,
          q\<lparr>queue := queue q @ [SetTaskState t (Some (length hp))],
            outstanding_tasks := outstanding_tasks q + 1,
            task_available_signals := task_available_signals q + 1\<rparr>,
          hp @ [\<lparr>state = QUEUED\<rparr>])"
  using assms
  by (simp add: Push_def Task_TryUpdateState_def TryUpdateState_def SetTaskState_def
      TaskState_ctor_def)

lemma Push_keeps_stopped:
  "Push q t hp = Inr (b, q', hp') \<Longrightarrow> stopped q' = stopped q"
  by (auto simp: Push_def split: if_splits sum.splits prod.splits)

lemma Worker_step_keeps_stopped:
  "Worker_step k w = Inr (k', w') \<Longrightarrow> stopped (tp_queue w') = stopped (tp_queue w)"
  by (induction k w rule: Worker_step.induct)
     (auto simp: BlockingPop_def NotifyOfCompletion_def Let_def
           split: if_splits sum.splits prod.splits list.splits blocking.splits option.splits)

lemma step_keeps_stopped:
  "step e w = Inr w' \<Longrightarrow> stopped (tp_queue w) \<Longrightarrow> stopped (tp_queue w')"
proof (cases e)
  case (Work i)
  assume "step e w = Inr w'" and "stopped (tp_queue w)"
  with Work show ?thesis
    by (auto split: if_splits sum.splits dest: Worker_step_keeps_stopped)
next
  case (DoPost t)
  assume "step e w = Inr w'" and "stopped (tp_queue w)"
  with DoPost show ?thesis
    by (auto simp: Post_def Let_def split: sum.splits dest: Push_keeps_stopped)
next
  case (DoCancel h)
  assume "step e w = Inr w'" and "stopped (tp_queue w)"
  with DoCancel show ?thesis
    by (auto split: if_splits prod.splits)
next
  case DoStop
  assume "step e w = Inr w'" and "stopped (tp_queue w)"
  with DoStop show ?thesis
    by (auto simp: Stop_def)
qed

lemma exec_keeps_stopped:
  "exec es w = Inr w' \<Longrightarrow> stopped (tp_queue w) \<Longrightarrow> stopped (tp_queue w')"
proof (induction es arbitrary: w)
  case Nil
  then show ?case by simp
next
  case (Cons e es)
  then show ?case
    by (auto split: sum.splits dest: step_keeps_stopped)
qed

text \<open>
  Claim C4. On a stopped queue \<open>Push\<close> returns false and changes neither the queue
  (contents, counter, signals) nor the task's state; \<open>Stop\<close> makes the queue stopped, and
  it stays stopped through everything the threads do afterwards, so every later \<open>Push\<close>
  returns false. On a queue that is not stopped, for a task whose state is \<open>INITIAL\<close>
  (or already \<open>QUEUED\<close>) or \<open>CANCELLED\<close>, \<open>Push\<close> leaves the state \<open>QUEUED\<close>, or
  unchanged at \<open>CANCELLED\<close>, appends the task, adds one to \<^verbatim>\<open>outstanding_tasks_\<close>,
  signals \<^verbatim>\<open>task_available_\<close> once, and returns true; so it does in particular on the
  task with its new \<open>TaskState\<close> that \<open>Post\<close> passes to it.
\<close>

theorem C4_push:
  "(stopped q \<longrightarrow> Push q t hp = Inr (False, q, hp))
   \<and> Push (Stop q) t hp = Inr (False, Stop q, hp)
   \<and> (exec es (w\<lparr>tp_queue := Stop (tp_queue w)\<rparr>) = Inr w'
        \<longrightarrow> Push (tp_queue w') t hp = Inr (False, tp_queue w', hp))
   \<and> (\<not> stopped q \<and> task_state t = Some h \<and> h < length hp
        \<and> state (hp ! h) \<in> {INITIAL, QUEUED, CANCELLED}
      \<longrightarrow> Push q t hp =
            Inr (True,
                 q\<lparr>queue := queue q @ [t],
                   outstanding_tasks := outstanding_tasks q + 1,
                   task_available_signals := task_available_signals q + 1\<rparr>,
                 hp[h := (hp ! h)\<lparr>state :=
                           (if state (hp ! h) = CANCELLED then CANCELLED else QUEUED)\<rparr>]))
   \<and> (\<not> stopped q \<longrightarrow>
        Push q (SetTaskState t (Some (length hp))) (hp @ [TaskState_ctor]) =
          Inr (True,
               q\<lparr>queue := queue q @ [SetTaskState t (Some (length hp))],
                 outstanding_tasks := outstanding_tasks q + 1,
                 task_available_signals := task_available_signals q + 1\<rparr>,
               hp @ [\<lparr>state = QUEUED\<rparr>]))"
proof -
  have "Push (Stop q) t hp = Inr (False, Stop q, hp)"
    by (rule Push_stopped) (simp add: Stop_def)
  moreover have "exec es (w\<lparr>tp_queue := Stop (tp_queue w)\<rparr>) = Inr w'
        \<longrightarrow> Push (tp_queue w') t hp = Inr (False, tp_queue w', hp)"
  proof
    assume "exec es (w\<lparr>tp_queue := Stop (tp_queue w)\<rparr>) = Inr w'"
    then have "stopped (tp_queue w')"
      by (rule exec_keeps_stopped) (simp add: Stop_def)
    then show "Push (tp_queue w') t hp = Inr (False, tp_queue w', hp)"
      by (rule Push_stopped)
  qed
  ultimately show ?thesis
    using Push_stopped Push_open Push_from_Post by blast
qed

theorem C4_push_witness:
  "Push (Stop TaskQueue_ctor) \<lparr>run_id = 7, task_state = Some 0\<rparr> [\<lparr>state = INITIAL\<rparr>]
     = Inr (False, Stop TaskQueue_ctor, [\<lparr>state = INITIAL\<rparr>])
   \<and> Push TaskQueue_ctor \<lparr>run_id = 7, task_state = Some 0\<rparr> [\<lparr>state = INITIAL\<rparr>]
     = Inr (True,
            \<lparr>queue = [\<lparr>run_id = 7, task_state = Some 0\<rparr>], outstanding_tasks = 1,
             stopped = False, task_available_signals = 1, task_available_broadcasts = 0,
             tasks_drained_broadcasts = 0\<rparr>,
            [\<lparr>state = QUEUED\<rparr>])
   \<and> Push TaskQueue_ctor \<lparr>run_id = 7, task_state = Some 0\<rparr> [\<lparr>state = CANCELLED\<rparr>]
     = Inr (True,
            \<lparr>queue = [\<lparr>run_id = 7, task_state = Some 0\<rparr>], outstanding_tasks = 1,
             stopped = False, task_available_signals = 1, task_available_broadcasts = 0,
             tasks_drained_broadcasts = 0\<rparr>,
            [\<lparr>state = CANCELLED\<rparr>])
   \<and> (\<exists>w'. exec [DoPost \<lparr>run_id = 8, task_state = None\<rparr>, Work 0]
                (\<lparr>heap = [], tp_queue = TaskQueue_ctor, workers = [Popping], run_log = []\<rparr>
                   \<lparr>tp_queue := Stop TaskQueue_ctor\<rparr>) = Inr w'
          \<and> Push (tp_queue w') \<lparr>run_id = 7, task_state = Some 0\<rparr> [\<lparr>state = INITIAL\<rparr>]
              = Inr (False, tp_queue w', [\<lparr>state = INITIAL\<rparr>]))"
proof -
  let ?t = "\<lparr>run_id = 7, task_state = Some 0\<rparr>"
  let ?w = "\<lparr>heap = [], tp_queue = TaskQueue_ctor, workers = [Popping], run_log = []\<rparr>"
  let ?es = "[DoPost \<lparr>run_id = 8, task_state = None\<rparr>, Work 0]"
  have open_q: "\<not> stopped TaskQueue_ctor"
    by (simp add: TaskQueue_ctor_def)
  have h1: "\<not> stopped TaskQueue_ctor \<and> task_state ?t = Some 0 \<and> 0 < length [\<lparr>state = INITIAL\<rparr>]
        \<and> state ([\<lparr>state = INITIAL\<rparr>] ! 0) \<in> {INITIAL, QUEUED, CANCELLED}"
    using open_q by simp
  have h2: "\<not> stopped TaskQueue_ctor \<and> task_state ?t = Some 0 \<and> 0 < length [\<lparr>state = CANCELLED\<rparr>]
        \<and> state ([\<lparr>state = CANCELLED\<rparr>] ! 0) \<in> {INITIAL, QUEUED, CANCELLED}"
    using open_q by simp
  have run: "exec ?es (?w\<lparr>tp_queue := Stop (tp_queue ?w)\<rparr>)
      = Inr \<lparr>heap = [\<lparr>state = INITIAL\<rparr>], tp_queue = Stop TaskQueue_ctor,
             workers = [Returned], run_log = []\<rparr>"
    by (simp add: Post_def Push_def Stop_def TaskQueue_ctor_def BlockingPop_def
        TaskState_ctor_def SetTaskState_def)
  from C4_push [of TaskQueue_ctor ?t "[\<lparr>state = INITIAL\<rparr>]" "[]" ?w ?w 0]
  have a: "Push (Stop TaskQueue_ctor) ?t [\<lparr>state = INITIAL\<rparr>]
     = Inr (False, Stop TaskQueue_ctor, [\<lparr>state = INITIAL\<rparr>])"
    by blast
  from C4_push [of TaskQueue_ctor ?t "[\<lparr>state = INITIAL\<rparr>]" "[]" ?w ?w 0] h1
  have b: "Push TaskQueue_ctor ?t [\<lparr>state = INITIAL\<rparr>]
     = Inr (True,
            \<lparr>queue = [?t], outstanding_tasks = 1,
             stopped = False, task_available_signals = 1, task_available_broadcasts = 0,
             tasks_drained_broadcasts = 0\<rparr>,
            [\<lparr>state = QUEUED\<rparr>])"
    by (simp add: TaskQueue_ctor_def)
  from C4_push [of TaskQueue_ctor ?t "[\<lparr>state = CANCELLED\<rparr>]" "[]" ?w ?w 0] h2
  have c: "Push TaskQueue_ctor ?t [\<lparr>state = CANCELLED\<rparr>]
     = Inr (True,
            \<lparr>queue = [?t], outstanding_tasks = 1,
             stopped = False, task_available_signals = 1, task_available_broadcasts = 0,
             tasks_drained_broadcasts = 0\<rparr>,
            [\<lparr>state = CANCELLED\<rparr>])"
    by (simp add: TaskQueue_ctor_def)
  from C4_push [of TaskQueue_ctor ?t "[\<lparr>state = INITIAL\<rparr>]" ?es ?w
      "\<lparr>heap = [\<lparr>state = INITIAL\<rparr>], tp_queue = Stop TaskQueue_ctor,
             workers = [Returned], run_log = []\<rparr>" 0] run
  have d: "Push (Stop TaskQueue_ctor) ?t [\<lparr>state = INITIAL\<rparr>]
     = Inr (False, Stop TaskQueue_ctor, [\<lparr>state = INITIAL\<rparr>])"
    by blast
  from a b c d run show ?thesis by simp
qed

lemma uv_executor_cancel_cookie:
  assumes "h < length hp"
  shows "uv_executor_cancel UV_EINVAL UV_EBUSY (Some \<lparr>reserved0 = Some \<lparr>data_state = h\<rparr>\<rparr>) hp =
     (if state (hp ! h) = COMPLETED then Inr (UV_EBUSY, hp)
      else Inr (0, hp[h := (hp ! h)\<lparr>state := CANCELLED\<rparr>]))"
  using assms
  by (simp add: uv_executor_cancel_def LibuvExecutor_Cancel_def Cancel_eq)

lemma Cancel_success_iff:
  "fst (Cancel ts) \<longleftrightarrow> state (snd (Cancel ts)) = CANCELLED"
  by (simp add: Cancel_eq)

text \<open>
  Claim C5, as the code has it. \<open>uv_executor_cancel\<close> returns \<^verbatim>\<open>UV_EINVAL\<close> for a null
  request and for a request without cookie. With a cookie it calls \<open>Cancel\<close> on the
  stored \<open>TaskState\<close> and returns 0 if and only if that succeeds, \<^verbatim>\<open>UV_EBUSY\<close> (an
  error code, not 0) if and only if it fails. \<open>Cancel\<close> succeeds exactly when the state
  after the attempt is \<open>CANCELLED\<close>, and that is exactly when the task was not yet
  \<open>COMPLETED\<close>: the result is 0 and the state \<open>CANCELLED\<close> for a task that is
  \<open>INITIAL\<close>, \<open>QUEUED\<close>, \<open>ASSIGNED\<close> or \<open>CANCELLED\<close>, and \<^verbatim>\<open>UV_EBUSY\<close> with the
  state unchanged for a \<open>COMPLETED\<close> one.
\<close>

theorem C5_cancel_codes:
  "uv_executor_cancel UV_EINVAL UV_EBUSY None hp = Inr (UV_EINVAL, hp)
   \<and> uv_executor_cancel UV_EINVAL UV_EBUSY (Some \<lparr>reserved0 = None\<rparr>) hp = Inr (UV_EINVAL, hp)
   \<and> (fst (Cancel ts) \<longleftrightarrow> state (snd (Cancel ts)) = CANCELLED)
   \<and> (fst (Cancel ts) \<longleftrightarrow> state ts \<noteq> COMPLETED)
   \<and> (h < length hp \<longrightarrow>
        uv_executor_cancel UV_EINVAL UV_EBUSY (Some \<lparr>reserved0 = Some \<lparr>data_state = h\<rparr>\<rparr>) hp =
          (if fst (Cancel (hp ! h)) then Inr (0, hp[h := snd (Cancel (hp ! h))])
           else Inr (UV_EBUSY, hp[h := snd (Cancel (hp ! h))])))
   \<and> (h < length hp \<and> UV_EBUSY \<noteq> 0 \<longrightarrow>
        ((\<exists>hp'. uv_executor_cancel UV_EINVAL UV_EBUSY
                  (Some \<lparr>reserved0 = Some \<lparr>data_state = h\<rparr>\<rparr>) hp = Inr (0, hp'))
           \<longleftrightarrow> fst (Cancel (hp ! h)))
        \<and> ((\<exists>hp'. uv_executor_cancel UV_EINVAL UV_EBUSY
                  (Some \<lparr>reserved0 = Some \<lparr>data_state = h\<rparr>\<rparr>) hp = Inr (UV_EBUSY, hp'))
           \<longleftrightarrow> \<not> fst (Cancel (hp ! h))))
   \<and> (h < length hp \<longrightarrow>
        uv_executor_cancel UV_EINVAL UV_EBUSY (Some \<lparr>reserved0 = Some \<lparr>data_state = h\<rparr>\<rparr>) hp =
          (if state (hp ! h) = COMPLETED then Inr (UV_EBUSY, hp)
           else Inr (0, hp[h := (hp ! h)\<lparr>state := CANCELLED\<rparr>])))"
proof -
  have "uv_executor_cancel UV_EINVAL UV_EBUSY None hp = Inr (UV_EINVAL, hp)"
    and "uv_executor_cancel UV_EINVAL UV_EBUSY (Some \<lparr>reserved0 = None\<rparr>) hp = Inr (UV_EINVAL, hp)"
    by (simp_all add: uv_executor_cancel_def)
  moreover have "fst (Cancel ts) \<longleftrightarrow> state ts \<noteq> COMPLETED"
    by (simp add: Cancel_eq)
  moreover have eq: "h < length hp \<longrightarrow>
        uv_executor_cancel UV_EINVAL UV_EBUSY (Some \<lparr>reserved0 = Some \<lparr>data_state = h\<rparr>\<rparr>) hp =
          (if fst (Cancel (hp ! h)) then Inr (0, hp[h := snd (Cancel (hp ! h))])
           else Inr (UV_EBUSY, hp[h := snd (Cancel (hp ! h))]))"
    by (simp add: uv_executor_cancel_def LibuvExecutor_Cancel_def split: prod.splits)
  moreover have "h < length hp \<and> UV_EBUSY \<noteq> 0 \<longrightarrow>
        ((\<exists>hp'. uv_executor_cancel UV_EINVAL UV_EBUSY
                  (Some \<lparr>reserved0 = Some \<lparr>data_state = h\<rparr>\<rparr>) hp = Inr (0, hp'))
           \<longleftrightarrow> fst (Cancel (hp ! h)))
        \<and> ((\<exists>hp'. uv_executor_cancel UV_EINVAL UV_EBUSY
                  (Some \<lparr>reserved0 = Some \<lparr>data_state = h\<rparr>\<rparr>) hp = Inr (UV_EBUSY, hp'))
           \<longleftrightarrow> \<not> fst (Cancel (hp ! h)))"
    using eq by auto
  ultimately show ?thesis
    using Cancel_success_iff uv_executor_cancel_cookie by blast
qed

theorem C5_cancel_codes_witness:
  "uv_executor_cancel (- 22) (- 16) (Some \<lparr>reserved0 = Some \<lparr>data_state = 1\<rparr>\<rparr>)
       [\<lparr>state = COMPLETED\<rparr>, \<lparr>state = QUEUED\<rparr>]
     = Inr (0, [\<lparr>state = COMPLETED\<rparr>, \<lparr>state = CANCELLED\<rparr>])
   \<and> uv_executor_cancel (- 22) (- 16) (Some \<lparr>reserved0 = Some \<lparr>data_state = 0\<rparr>\<rparr>)
       [\<lparr>state = COMPLETED\<rparr>, \<lparr>state = QUEUED\<rparr>]
     = Inr (- 16, [\<lparr>state = COMPLETED\<rparr>, \<lparr>state = QUEUED\<rparr>])
   \<and> (1::nat) < length [\<lparr>state = COMPLETED\<rparr>, \<lparr>state = QUEUED\<rparr>] \<and> (- 16 :: int) \<noteq> 0
   \<and> fst (Cancel \<lparr>state = QUEUED\<rparr>)
   \<and> (\<exists>hp'. uv_executor_cancel (- 22) (- 16) (Some \<lparr>reserved0 = Some \<lparr>data_state = 1\<rparr>\<rparr>)
               [\<lparr>state = COMPLETED\<rparr>, \<lparr>state = QUEUED\<rparr>] = Inr (0, hp'))"
proof -
  let ?hp = "[\<lparr>state = COMPLETED\<rparr>, \<lparr>state = QUEUED\<rparr>]"
  have b1: "(1::nat) < length ?hp" and b0: "(0::nat) < length ?hp"
    by simp_all
  have nz: "(1::nat) < length ?hp \<and> (- 16 :: int) \<noteq> 0" by simp
  have ok: "fst (Cancel (?hp ! 1))" by (simp add: Cancel_def TryUpdateState_def)
  note last = conjunct2 [THEN conjunct2, THEN conjunct2, THEN conjunct2, THEN conjunct2,
      THEN conjunct2, THEN mp]
  note iff = conjunct2 [THEN conjunct2, THEN conjunct2, THEN conjunct2, THEN conjunct2,
      THEN conjunct1, THEN mp, THEN conjunct1, THEN iffD2]
  from C5_cancel_codes [of "- 22" "- 16" ?hp "\<lparr>state = QUEUED\<rparr>" 1, THEN last, OF b1]
  have x: "uv_executor_cancel (- 22) (- 16) (Some \<lparr>reserved0 = Some \<lparr>data_state = 1\<rparr>\<rparr>) ?hp
     = Inr (0, [\<lparr>state = COMPLETED\<rparr>, \<lparr>state = CANCELLED\<rparr>])"
    by simp
  from C5_cancel_codes [of "- 22" "- 16" ?hp "\<lparr>state = QUEUED\<rparr>" 0, THEN last, OF b0]
  have y: "uv_executor_cancel (- 22) (- 16) (Some \<lparr>reserved0 = Some \<lparr>data_state = 0\<rparr>\<rparr>) ?hp
     = Inr (- 16, ?hp)"
    by simp
  from C5_cancel_codes [of "- 22" "- 16" ?hp "\<lparr>state = QUEUED\<rparr>" 1, THEN iff, OF nz ok]
  have z: "\<exists>hp'. uv_executor_cancel (- 22) (- 16) (Some \<lparr>reserved0 = Some \<lparr>data_state = 1\<rparr>\<rparr>) ?hp
     = Inr (0, hp')" .
  from ok have "fst (Cancel \<lparr>state = QUEUED\<rparr>)" by simp
  with x y z nz show ?thesis by blast
qed

text \<open>
  The claim as worded gives \<^verbatim>\<open>EBUSY\<close> for a task that is already assigned. For a
  request whose task is \<open>ASSIGNED\<close> the code cancels it and returns 0.
\<close>

theorem C5_assigned_counterexample:
  "uv_executor_cancel (- 22) (- 16) (Some \<lparr>reserved0 = Some \<lparr>data_state = 0\<rparr>\<rparr>)
       [\<lparr>state = ASSIGNED\<rparr>]
     = Inr (0, [\<lparr>state = CANCELLED\<rparr>])
   \<and> uv_executor_cancel (- 22) (- 16) (Some \<lparr>reserved0 = Some \<lparr>data_state = 0\<rparr>\<rparr>)
       [\<lparr>state = ASSIGNED\<rparr>]
     \<noteq> Inr (- 16, [\<lparr>state = ASSIGNED\<rparr>])"
  by (simp add: uv_executor_cancel_def LibuvExecutor_Cancel_def Cancel_def TryUpdateState_def)

section \<open>The invariant of the threadpool\<close>

lemma st_update:
  "st (hp[h := x]) t =
     (if task_state t = Some h \<and> h < length hp then Some (state x) else st hp t)"
  by (auto simp: st_def split: option.splits)

lemma st_append:
  "st (hp @ [x]) t =
     (if task_state t = Some (length hp) then Some (state x) else st hp t)"
  by (auto simp: st_def nth_append split: option.splits)

lemma st_SomeD: "st hp t = Some s \<Longrightarrow> \<exists>h. task_state t = Some h \<and> h < length hp \<and> state (hp ! h) = s"
  by (auto simp: st_def split: option.splits if_splits)

lemma Task_TryUpdateState_st:
  assumes "st hp t = Some s"
  shows "\<exists>h. task_state t = Some h \<and> h < length hp \<and>
     Task_TryUpdateState t n hp =
       Inr (if ValidStateTransition s n then n else s,
            hp[h := \<lparr>state = (if ValidStateTransition s n then n else s)\<rparr>])"
proof -
  from st_SomeD [OF assms] obtain h where
    h: "task_state t = Some h" "h < length hp" "state (hp ! h) = s" by blast
  then have "Task_TryUpdateState t n hp =
       Inr (if ValidStateTransition s n then n else s,
            hp[h := \<lparr>state = (if ValidStateTransition s n then n else s)\<rparr>])"
    by (cases "hp ! h") (auto simp: Task_TryUpdateState_def TryUpdateState_def)
  with h show ?thesis by blast
qed

lemma filter_is_holding_update:
  "i < length ws \<Longrightarrow>
   int (length (filter is_holding (ws[i := k]))) + (if is_holding (ws ! i) then 1 else 0)
     = int (length (filter is_holding ws)) + (if is_holding k then 1 else 0)"
proof (induction ws arbitrary: i)
  case Nil
  then show ?case by simp
next
  case (Cons a ws)
  show ?case
  proof (cases i)
    case 0
    then show ?thesis by simp
  next
    case (Suc n)
    with Cons.prems have "n < length ws" by simp
    from Cons.IH [OF this] Suc show ?thesis
      by (auto split: if_splits)
  qed
qed


lemmas inv_defs = pool_inv_def queue_ok_def workers_ok_def separate_def counted_def drained_def

lemma inv_Popping:
  assumes "pool_inv w" and "i < length (workers w)" and "workers w ! i = Popping"
  shows "\<exists>k w'. Worker_step Popping w = Inr (k, w') \<and> pool_inv (w'\<lparr>workers := (workers w')[i := k]\<rparr>)"
proof (cases "queue (tp_queue w)")
  case Nil
  show ?thesis
  proof (cases "stopped (tp_queue w)")
    case False
    have "(workers w)[i := Popping] = workers w"
      using assms(3) by (metis list_update_id)
    with Nil False assms(1) show ?thesis
      by (simp add: BlockingPop_def)
  next
    case True
    let ?w' = "w\<lparr>workers := (workers w)[i := Returned]\<rparr>"
    have step: "Worker_step Popping w = Inr (Returned, w)"
      using Nil True by (simp add: BlockingPop_def)
    have cnt: "counted ?w'"
      using assms filter_is_holding_update [OF assms(2), of Returned]
      by (simp add: inv_defs)
    have "pool_inv ?w'"
      using assms Nil True cnt
      by (auto simp: inv_defs nth_list_update)
    with step show ?thesis by simp
  qed
next
  case (Cons t rest)
  let ?w' = "w\<lparr>tp_queue := (tp_queue w)\<lparr>queue := rest\<rparr>,
               workers := (workers w)[i := Holding t AtAssign]\<rparr>"
  have step: "Worker_step Popping w = Inr (Holding t AtAssign, w\<lparr>tp_queue := (tp_queue w)\<lparr>queue := rest\<rparr>\<rparr>)"
    using Cons by (simp add: BlockingPop_def)
  have cnt: "counted ?w'"
    using assms Cons filter_is_holding_update [OF assms(2), of "Holding t AtAssign"]
    by (simp add: inv_defs)
  have q: "queue_ok ?w'"
    using assms(1) Cons by (simp add: inv_defs)
  have wk: "workers_ok ?w'"
    using assms Cons by (auto simp: inv_defs nth_list_update)
  have sep: "separate ?w'"
    using assms Cons by (auto simp: inv_defs nth_list_update image_iff)
  have dr: "drained ?w'"
    using assms Cons by (auto simp: inv_defs nth_list_update split: if_splits)
  have "pool_inv ?w'"
    using assms(1) cnt q wk sep dr by (simp add: pool_inv_def)
  with step show ?thesis by simp
qed


lemma worker_ok_update_other:
  assumes "\<And>t pc. k = Holding t pc \<Longrightarrow> task_state t \<noteq> Some h"
  shows "worker_ok (hp[h := x]) k = worker_ok hp k"
proof (cases k)
  case (Holding t pc)
  with assms have "task_state t \<noteq> Some h" by blast
  then have "st (hp[h := x]) t = st hp t" by (simp add: st_update)
  with Holding show ?thesis by (cases pc) simp_all
qed simp_all

text \<open>A worker's step that writes the state of the task in its hands and moves to the
  next point of the loop body.\<close>

lemma inv_write:
  assumes "pool_inv w" and "i < length (workers w)" and "workers w ! i = Holding t pc"
    and "task_state t = Some h" and "h < length (heap w)"
    and "worker_ok ((heap w)[h := x]) (Holding t pc')"
  shows "pool_inv (w\<lparr>heap := (heap w)[h := x], workers := (workers w)[i := Holding t pc']\<rparr>)"
proof -
  let ?w' = "w\<lparr>heap := (heap w)[h := x], workers := (workers w)[i := Holding t pc']\<rparr>"
  have other: "task_state t' \<noteq> Some h"
    if "j < length (workers w)" "j \<noteq> i" "workers w ! j = Holding t' pc''" for j t' pc''
    using assms(1-4) that unfolding inv_defs by metis
  have queued: "task_state t' \<noteq> Some h" if "t' \<in> set (queue (tp_queue w))" for t'
    using assms(1-4) that unfolding inv_defs by metis
  have q: "queue_ok ?w'"
    using assms(1) queued by (auto simp: inv_defs st_update)
  have wk: "workers_ok ?w'"
    unfolding workers_ok_def
  proof (intro allI impI)
    fix j assume j: "j < length (workers ?w')"
    show "worker_ok (heap ?w') (workers ?w' ! j)"
    proof (cases "j = i")
      case True
      with assms(2,6) show ?thesis by simp
    next
      case False
      from j have j': "j < length (workers w)" by simp
      have "worker_ok ((heap w)[h := x]) (workers w ! j) = worker_ok (heap w) (workers w ! j)"
        using other [OF j' False] by (intro worker_ok_update_other) auto
      moreover have "worker_ok (heap w) (workers w ! j)"
        using assms(1) j' by (simp add: inv_defs)
      ultimately show ?thesis using False by simp
    qed
  qed
  have sep: "separate ?w'"
    using assms(1-3) unfolding inv_defs
    by (simp add: nth_list_update) metis
  have cnt: "counted ?w'"
    using assms(1-3) filter_is_holding_update [OF assms(2), of "Holding t pc'"]
    by (simp add: inv_defs)
  have dr: "drained ?w'"
    using assms(1-3) by (auto simp: inv_defs nth_list_update split: if_splits)
  show ?thesis
    using assms(1) q wk sep cnt dr by (simp add: pool_inv_def)
qed


lemma inv_run_log: "pool_inv (w\<lparr>run_log := r\<rparr>) = pool_inv w"
  by (simp add: inv_defs)

lemma inv_run_log_workers:
  "pool_inv (w\<lparr>run_log := r, workers := x\<rparr>) = pool_inv (w\<lparr>workers := x\<rparr>)"
  by (simp add: inv_defs)

lemma inv_Holding:
  assumes "pool_inv w" and "i < length (workers w)" and "workers w ! i = Holding t pc"
  shows "\<exists>k w'. Worker_step (Holding t pc) w = Inr (k, w') \<and> pool_inv (w'\<lparr>workers := (workers w')[i := k]\<rparr>)"
proof -
  have ok: "worker_ok (heap w) (Holding t pc)"
    using assms by (auto simp: inv_defs)
  show ?thesis
  proof (cases pc)
    case AtAssign
    with ok obtain s where s: "st (heap w) t = Some s" "s = QUEUED \<or> s = CANCELLED" by auto
    let ?s' = "if ValidStateTransition s ASSIGNED then ASSIGNED else s"
    from Task_TryUpdateState_st [OF s(1), of ASSIGNED] obtain h where
      h: "task_state t = Some h" "h < length (heap w)"
        "Task_TryUpdateState t ASSIGNED (heap w) = Inr (?s', (heap w)[h := \<lparr>state = ?s'\<rparr>])"
      by blast
    have "worker_ok ((heap w)[h := \<lparr>state = ?s'\<rparr>]) (Holding t (AtRun ?s'))"
      using s(2) h(1,2) by (auto simp: st_update)
    from inv_write [OF assms(1,2) _ h(1,2) this] assms(3) AtAssign
    have "pool_inv (w\<lparr>heap := (heap w)[h := \<lparr>state = ?s'\<rparr>],
                  workers := (workers w)[i := Holding t (AtRun ?s')]\<rparr>)"
      by simp
    with h(3) AtAssign show ?thesis by simp
  next
    case (AtRun s)
    with ok have s: "s = ASSIGNED \<or> s = CANCELLED"
      and "st (heap w) t = Some ASSIGNED \<or> st (heap w) t = Some CANCELLED" by auto
    then obtain h where h: "task_state t = Some h" "h < length (heap w)"
      and ok': "worker_ok (heap w) (Holding t AtComplete)"
      by (auto dest: st_SomeD)
    have same: "(heap w)[h := heap w ! h] = heap w" by simp
    from inv_write [OF assms(1,2) _ h, of pc "heap w ! h" AtComplete] assms(3) ok' same
    have i1: "pool_inv (w\<lparr>workers := (workers w)[i := Holding t AtComplete]\<rparr>)"
      by simp
    with s AtRun show ?thesis by (auto simp: inv_run_log_workers)
  next
    case AtComplete
    with ok obtain s where s: "st (heap w) t = Some s" "s = ASSIGNED \<or> s = CANCELLED" by auto
    then have v: "ValidStateTransition s COMPLETED" by auto
    from Task_TryUpdateState_st [OF s(1), of COMPLETED] v obtain h where
      h: "task_state t = Some h" "h < length (heap w)"
        "Task_TryUpdateState t COMPLETED (heap w) = Inr (COMPLETED, (heap w)[h := \<lparr>state = COMPLETED\<rparr>])"
      by auto
    have "worker_ok ((heap w)[h := \<lparr>state = COMPLETED\<rparr>]) (Holding t AtNotify)"
      using h(1,2) by (auto simp: st_update)
    from inv_write [OF assms(1,2) _ h(1,2) this] assms(3) AtComplete
    have "pool_inv (w\<lparr>heap := (heap w)[h := \<lparr>state = COMPLETED\<rparr>],
                  workers := (workers w)[i := Holding t AtNotify]\<rparr>)"
      by simp
    with h(3) AtComplete show ?thesis by simp
  next
    case AtNotify
    let ?q = "tp_queue w"
    have hold: "is_holding (workers w ! i)" using assms(3) by simp
    have upd: "int (length (filter is_holding ((workers w)[i := Popping]))) + 1
        = int (length (filter is_holding (workers w)))"
      using filter_is_holding_update [OF assms(2), of Popping] hold by simp
    then have pos: "outstanding_tasks ?q - 1 \<ge> 0"
      using assms(1) by (simp add: inv_defs)
    then obtain q' where q': "NotifyOfCompletion ?q = Inr q'"
      "queue q' = queue ?q" "stopped q' = stopped ?q"
      "outstanding_tasks q' = outstanding_tasks ?q - 1"
      by (simp add: NotifyOfCompletion_def Let_def)
    let ?w' = "w\<lparr>tp_queue := q', workers := (workers w)[i := Popping]\<rparr>"
    have q: "queue_ok ?w'"
      using assms(1) q' by (simp add: inv_defs)
    have wk: "workers_ok ?w'"
      using assms(1,2) by (auto simp: inv_defs nth_list_update)
    have sep: "separate ?w'"
      using assms(1,2) q' by (auto simp: inv_defs nth_list_update)
    have cnt: "counted ?w'"
      using assms(1) q' upd by (simp add: inv_defs)
    have dr: "drained ?w'"
      using assms(1,2) q' by (auto simp: inv_defs nth_list_update split: if_splits)
    have "pool_inv ?w'"
      using assms(1) q wk sep cnt dr by (simp add: pool_inv_def)
    with q'(1) AtNotify show ?thesis by simp
  qed
qed

lemma inv_Work:
  assumes "pool_inv w"
  shows "\<exists>w'. step (Work i) w = Inr w' \<and> pool_inv w'"
proof (cases "i < length (workers w)")
  case False
  with assms show ?thesis by simp
next
  case True
  show ?thesis
  proof (cases "workers w ! i")
    case Popping
    from inv_Popping [OF assms True Popping] Popping True show ?thesis
      by auto
  next
    case (Holding t pc)
    from inv_Holding [OF assms True Holding] Holding True show ?thesis
      by auto
  next
    case Returned
    then have "(workers w)[i := Returned] = workers w"
      by (metis list_update_id)
    with assms Returned True show ?thesis by simp
  qed
qed

lemma worker_ok_cancel:
  assumes "worker_ok hp k" and "h < length hp"
  shows "worker_ok (hp[h := snd (Cancel (hp ! h))]) k"
proof (cases k)
  case (Holding t pc)
  with assms show ?thesis
    by (cases pc) (auto simp: st_update Cancel_eq dest!: st_SomeD)
qed simp_all

lemma inv_Cancel:
  assumes "pool_inv w"
  shows "\<exists>w'. step (DoCancel h) w = Inr w' \<and> pool_inv w'"
proof (cases "h < length (heap w)")
  case False
  with assms show ?thesis by simp
next
  case True
  let ?hp = "(heap w)[h := snd (Cancel (heap w ! h))]"
  have step: "step (DoCancel h) w = Inr (w\<lparr>heap := ?hp\<rparr>)"
    using True by (simp split: prod.splits)
  have q: "queue_ok (w\<lparr>heap := ?hp\<rparr>)"
    using assms True by (auto simp: inv_defs st_update Cancel_eq dest!: st_SomeD)
  have wk: "workers_ok (w\<lparr>heap := ?hp\<rparr>)"
    using assms True by (auto simp: inv_defs intro: worker_ok_cancel)
  have "pool_inv (w\<lparr>heap := ?hp\<rparr>)"
    using assms q wk by (simp add: inv_defs)
  with step show ?thesis by simp
qed

lemma inv_Stop:
  assumes "pool_inv w"
  shows "\<exists>w'. step DoStop w = Inr w' \<and> pool_inv w'"
  using assms by (simp add: inv_defs Stop_def)

lemma worker_ok_append:
  assumes "worker_ok hp k"
  shows "worker_ok (hp @ [x]) k"
proof (cases k)
  case (Holding t pc)
  with assms show ?thesis
    by (cases pc) (auto simp: st_append dest!: st_SomeD)
qed simp_all

lemma Post_result:
  "Post t w =
     Inr (Some (length (heap w)),
          if stopped (tp_queue w) then w\<lparr>heap := heap w @ [\<lparr>state = INITIAL\<rparr>]\<rparr>
          else w\<lparr>heap := heap w @ [\<lparr>state = QUEUED\<rparr>],
                 tp_queue := (tp_queue w)
                   \<lparr>queue := queue (tp_queue w) @ [t\<lparr>task_state := Some (length (heap w))\<rparr>],
                    outstanding_tasks := outstanding_tasks (tp_queue w) + 1,
                    task_available_signals := task_available_signals (tp_queue w) + 1\<rparr>\<rparr>)"
  by (simp add: Post_def Push_def Task_TryUpdateState_def TryUpdateState_def SetTaskState_def
      TaskState_ctor_def Let_def)

lemma held_handle_bound:
  assumes "pool_inv w" and "j < length (workers w)" and "workers w ! j = Holding t pc"
  shows "\<exists>h. task_state t = Some h \<and> h < length (heap w)"
proof -
  from assms have "worker_ok (heap w) (Holding t pc)" by (auto simp: inv_defs)
  then show ?thesis by (cases pc) (auto dest: st_SomeD)
qed

lemma queued_handle_bound:
  assumes "pool_inv w" and "t \<in> set (queue (tp_queue w))"
  shows "\<exists>h. task_state t = Some h \<and> h < length (heap w)"
proof -
  from assms have "st (heap w) t = Some QUEUED \<or> st (heap w) t = Some CANCELLED"
    by (simp add: inv_defs)
  then show ?thesis by (auto dest: st_SomeD)
qed

lemma inv_Post:
  assumes "pool_inv w"
  shows "\<exists>w'. step (DoPost t) w = Inr w' \<and> pool_inv w'"
proof (cases "stopped (tp_queue w)")
  case True
  let ?w' = "w\<lparr>heap := heap w @ [\<lparr>state = INITIAL\<rparr>]\<rparr>"
  have q: "queue_ok ?w'"
    using assms by (auto simp: inv_defs st_append dest!: st_SomeD)
  have wk: "workers_ok ?w'"
    using assms by (auto simp: inv_defs intro: worker_ok_append)
  have "pool_inv ?w'"
    using assms q wk by (simp add: inv_defs)
  with True show ?thesis by (simp add: Post_result)
next
  case False
  let ?h = "length (heap w)"
  let ?t = "t\<lparr>task_state := Some ?h\<rparr>"
  let ?w' = "w\<lparr>heap := heap w @ [\<lparr>state = QUEUED\<rparr>],
                 tp_queue := (tp_queue w)
                   \<lparr>queue := queue (tp_queue w) @ [?t],
                    outstanding_tasks := outstanding_tasks (tp_queue w) + 1,
                    task_available_signals := task_available_signals (tp_queue w) + 1\<rparr>\<rparr>"
  have fresh_q: "task_state t' \<noteq> Some ?h" if "t' \<in> set (queue (tp_queue w))" for t'
    using queued_handle_bound [OF assms that] by auto
  have fresh_w: "task_state t' \<noteq> Some ?h"
    if "j < length (workers w)" "workers w ! j = Holding t' pc" for j t' pc
    using held_handle_bound [OF assms that] by auto
  have q: "queue_ok ?w'"
    using assms fresh_q by (auto simp: inv_defs st_append dest!: st_SomeD)
  have wk: "workers_ok ?w'"
    using assms by (auto simp: inv_defs intro: worker_ok_append)
  have sep: "separate ?w'"
    using assms fresh_w unfolding inv_defs by (auto simp: eq_commute)
  have cnt: "counted ?w'"
    using assms by (simp add: inv_defs)
  have dr: "drained ?w'"
    using assms False by (auto simp: inv_defs)
  have "pool_inv ?w'"
    using assms q wk sep cnt dr by (simp add: pool_inv_def)
  with False show ?thesis by (simp add: Post_result)
qed

lemma inv_step:
  assumes "pool_inv w"
  shows "\<exists>w'. step e w = Inr w' \<and> pool_inv w'"
proof (cases e)
  case (Work i)
  with inv_Work [OF assms] show ?thesis by blast
next
  case (DoPost t)
  with inv_Post [OF assms] show ?thesis by blast
next
  case (DoCancel h)
  with inv_Cancel [OF assms] show ?thesis by blast
next
  case DoStop
  with inv_Stop [OF assms] show ?thesis by blast
qed

lemma inv_exec:
  assumes "pool_inv w"
  shows "\<exists>w'. exec es w = Inr w' \<and> pool_inv w'"
  using assms
proof (induction es arbitrary: w)
  case Nil
  then show ?case by simp
next
  case (Cons e es)
  from inv_step [OF Cons.prems, of e] obtain w1 where w1: "step e w = Inr w1" "pool_inv w1"
    by blast
  from Cons.IH [OF w1(2)] w1(1) show ?case by simp
qed

lemma inv_ctor:
  assumes "Threadpool_ctor n env cpu = Inr w"
  shows "pool_inv w"
  using assms
  by (auto simp: Threadpool_ctor_def Let_def inv_defs TaskQueue_ctor_def split: if_splits)

section \<open>Workers and cancellation\<close>

text \<open>
  Claim C3. Take a threadpool as its constructor leaves it and any interleaving of the
  threads: steps of the workers, posts, \<open>Cancel\<close> calls on any handle at any moment,
  the stop of the queue. No \<^verbatim>\<open>CHECK\<close> fails on the way. Whenever afterwards a
  worker is about to make its final \<open>TryUpdateState(COMPLETED)\<close>, the state of its task
  is \<open>ASSIGNED\<close> or \<open>CANCELLED\<close> and the call returns \<open>COMPLETED\<close>; the value its
  \<open>TryUpdateState(ASSIGNED)\<close> returns, or has returned, is \<open>ASSIGNED\<close> or
  \<open>CANCELLED\<close>.
\<close>

theorem C3_worker_checks_hold:
  assumes "Threadpool_ctor n env cpu = Inr w0"
  shows "\<exists>w. exec es w0 = Inr w
     \<and> (\<forall>i t. i < length (workers w) \<longrightarrow>
          (workers w ! i = Holding t AtComplete \<longrightarrow>
             (st (heap w) t = Some ASSIGNED \<or> st (heap w) t = Some CANCELLED)
             \<and> (\<exists>hp'. Task_TryUpdateState t COMPLETED (heap w) = Inr (COMPLETED, hp')))
          \<and> (\<forall>s. workers w ! i = Holding t (AtRun s) \<longrightarrow> s = ASSIGNED \<or> s = CANCELLED)
          \<and> (workers w ! i = Holding t AtAssign \<longrightarrow>
             (\<exists>s hp'. Task_TryUpdateState t ASSIGNED (heap w) = Inr (s, hp')
                \<and> (s = ASSIGNED \<or> s = CANCELLED))))"
proof -
  from inv_exec [OF inv_ctor [OF assms], of es] obtain w where
    w: "exec es w0 = Inr w" "pool_inv w" by blast
  have "(workers w ! i = Holding t AtComplete \<longrightarrow>
             (st (heap w) t = Some ASSIGNED \<or> st (heap w) t = Some CANCELLED)
             \<and> (\<exists>hp'. Task_TryUpdateState t COMPLETED (heap w) = Inr (COMPLETED, hp')))
          \<and> (\<forall>s. workers w ! i = Holding t (AtRun s) \<longrightarrow> s = ASSIGNED \<or> s = CANCELLED)
          \<and> (workers w ! i = Holding t AtAssign \<longrightarrow>
             (\<exists>s hp'. Task_TryUpdateState t ASSIGNED (heap w) = Inr (s, hp')
                \<and> (s = ASSIGNED \<or> s = CANCELLED)))"
    if i: "i < length (workers w)" for i t
  proof (intro conjI impI allI)
    assume "workers w ! i = Holding t AtComplete"
    with w(2) i have "worker_ok (heap w) (Holding t AtComplete)"
      by (auto simp: inv_defs)
    then show c: "st (heap w) t = Some ASSIGNED \<or> st (heap w) t = Some CANCELLED" by simp
    then obtain s where s: "st (heap w) t = Some s" "s = ASSIGNED \<or> s = CANCELLED" by blast
    from Task_TryUpdateState_st [OF s(1), of COMPLETED] s(2)
    show "\<exists>hp'. Task_TryUpdateState t COMPLETED (heap w) = Inr (COMPLETED, hp')" by auto
  next
    fix s assume "workers w ! i = Holding t (AtRun s)"
    with w(2) i have "worker_ok (heap w) (Holding t (AtRun s))"
      by (auto simp: inv_defs)
    then show "s = ASSIGNED \<or> s = CANCELLED" by simp
  next
    assume "workers w ! i = Holding t AtAssign"
    with w(2) i have "worker_ok (heap w) (Holding t AtAssign)"
      by (auto simp: inv_defs)
    then obtain s where s: "st (heap w) t = Some s" "s = QUEUED \<or> s = CANCELLED" by auto
    from Task_TryUpdateState_st [OF s(1), of ASSIGNED] s(2)
    show "\<exists>s hp'. Task_TryUpdateState t ASSIGNED (heap w) = Inr (s, hp')
                \<and> (s = ASSIGNED \<or> s = CANCELLED)" by auto
  qed
  with w(1) show ?thesis by blast
qed

theorem C3_worker_checks_hold_witness:
  "Threadpool_ctor 1 None None
     = Inr \<lparr>heap = [], tp_queue = TaskQueue_ctor, workers = [Popping], run_log = []\<rparr>
   \<and> (\<exists>w. exec [DoPost \<lparr>run_id = 7, task_state = None\<rparr>, Work 0, Work 0, DoCancel 0, Work 0]
              \<lparr>heap = [], tp_queue = TaskQueue_ctor, workers = [Popping], run_log = []\<rparr> = Inr w
        \<and> workers w = [Holding \<lparr>run_id = 7, task_state = Some 0\<rparr> AtComplete]
        \<and> heap w = [\<lparr>state = CANCELLED\<rparr>]
        \<and> run_log w = [\<lparr>run_id = 7, task_state = Some 0\<rparr>]
        \<and> (\<exists>hp'. Task_TryUpdateState \<lparr>run_id = 7, task_state = Some 0\<rparr> COMPLETED (heap w)
                    = Inr (COMPLETED, hp')))"
proof -
  let ?w0 = "\<lparr>heap = [], tp_queue = TaskQueue_ctor, workers = [Popping], run_log = []\<rparr>"
  let ?t = "\<lparr>run_id = 7, task_state = Some 0\<rparr>"
  let ?es = "[DoPost \<lparr>run_id = 7, task_state = None\<rparr>, Work 0, Work 0, DoCancel 0, Work 0]"
  have ctor: "Threadpool_ctor 1 None None = Inr ?w0"
    by (simp add: Threadpool_ctor_def)
  have run: "exec ?es ?w0 =
      Inr \<lparr>heap = [\<lparr>state = CANCELLED\<rparr>],
            tp_queue = TaskQueue_ctor\<lparr>outstanding_tasks := 1, task_available_signals := 1\<rparr>,
            workers = [Holding ?t AtComplete], run_log = [?t]\<rparr>"
    by (simp add: Post_def Push_def Task_TryUpdateState_def TryUpdateState_def SetTaskState_def
        TaskState_ctor_def TaskQueue_ctor_def BlockingPop_def Cancel_def)
  from C3_worker_checks_hold [OF ctor, of ?es] run
  have "\<exists>hp'. Task_TryUpdateState ?t COMPLETED [\<lparr>state = CANCELLED\<rparr>] = Inr (COMPLETED, hp')"
    by auto
  with ctor run show ?thesis by simp
qed

section \<open>What a step of a worker does\<close>

lemma Work_cases [consumes 3, case_names blocked exit pop assign run skip complete notify returned]:
  assumes "pool_inv w" and "i < length (workers w)" and "step (Work i) w = Inr w'"
  obtains
    (blocked) "workers w ! i = Popping" "queue (tp_queue w) = []" "\<not> stopped (tp_queue w)" "w' = w"
  | (exit) "workers w ! i = Popping" "queue (tp_queue w) = []" "stopped (tp_queue w)"
      "w' = w\<lparr>workers := (workers w)[i := Returned]\<rparr>"
  | (pop) t rest where "workers w ! i = Popping" "queue (tp_queue w) = t # rest"
      "w' = w\<lparr>tp_queue := (tp_queue w)\<lparr>queue := rest\<rparr>,
              workers := (workers w)[i := Holding t AtAssign]\<rparr>"
  | (assign) t h s where "workers w ! i = Holding t AtAssign" "task_state t = Some h"
      "h < length (heap w)" "state (heap w ! h) = s" "s = QUEUED \<or> s = CANCELLED"
      "w' = w\<lparr>heap := (heap w)[h := \<lparr>state = (if s = QUEUED then ASSIGNED else CANCELLED)\<rparr>],
              workers := (workers w)[i := Holding t (AtRun (if s = QUEUED then ASSIGNED else CANCELLED))]\<rparr>"
  | (run) t where "workers w ! i = Holding t (AtRun ASSIGNED)"
      "w' = w\<lparr>run_log := run_log w @ [t], workers := (workers w)[i := Holding t AtComplete]\<rparr>"
  | (skip) t where "workers w ! i = Holding t (AtRun CANCELLED)"
      "w' = w\<lparr>workers := (workers w)[i := Holding t AtComplete]\<rparr>"
  | (complete) t h where "workers w ! i = Holding t AtComplete" "task_state t = Some h"
      "h < length (heap w)"
      "w' = w\<lparr>heap := (heap w)[h := \<lparr>state = COMPLETED\<rparr>],
              workers := (workers w)[i := Holding t AtNotify]\<rparr>"
  | (notify) t h q' where "workers w ! i = Holding t AtNotify" "task_state t = Some h"
      "h < length (heap w)" "state (heap w ! h) = COMPLETED"
      "queue q' = queue (tp_queue w)" "stopped q' = stopped (tp_queue w)"
      "w' = w\<lparr>tp_queue := q', workers := (workers w)[i := Popping]\<rparr>"
  | (returned) "workers w ! i = Returned" "w' = w"
proof (cases "workers w ! i")
  case Popping
  then have same: "(workers w)[i := Popping] = workers w" by (metis list_update_id)
  show ?thesis
  proof (cases "queue (tp_queue w)")
    case Nil
    show ?thesis
    proof (cases "stopped (tp_queue w)")
      case False
      with Nil Popping assms(2,3) same have "w' = w" by (simp add: BlockingPop_def)
      with Popping Nil False show ?thesis by (rule blocked)
    next
      case True
      with Nil Popping assms(2,3) have "w' = w\<lparr>workers := (workers w)[i := Returned]\<rparr>"
        by (simp add: BlockingPop_def)
      with Popping Nil True show ?thesis by (rule exit)
    qed
  next
    case (Cons t rest)
    with Popping assms(2,3) have "w' = w\<lparr>tp_queue := (tp_queue w)\<lparr>queue := rest\<rparr>,
              workers := (workers w)[i := Holding t AtAssign]\<rparr>"
      by (auto simp: BlockingPop_def)
    with Popping Cons show ?thesis by (rule pop)
  qed
next
  case Returned
  then have "(workers w)[i := Returned] = workers w" by (metis list_update_id)
  with Returned assms(2,3) have "w' = w" by simp
  with Returned show ?thesis by (rule returned)
next
  case (Holding t pc)
  with assms(1,2) have ok: "worker_ok (heap w) (Holding t pc)"
    by (auto simp: inv_defs)
  show ?thesis
  proof (cases pc)
    case AtAssign
    with ok obtain s where s: "st (heap w) t = Some s" "s = QUEUED \<or> s = CANCELLED" by auto
    from st_SomeD [OF s(1)] obtain h where
      h: "task_state t = Some h" "h < length (heap w)" "state (heap w ! h) = s" by blast
    from Task_TryUpdateState_st [OF s(1), of ASSIGNED] h(1) s(2)
    have "Task_TryUpdateState t ASSIGNED (heap w) =
        Inr (if s = QUEUED then ASSIGNED else CANCELLED,
             (heap w)[h := \<lparr>state = (if s = QUEUED then ASSIGNED else CANCELLED)\<rparr>])"
      by auto
    with Holding AtAssign assms(2,3)
    have "w' = w\<lparr>heap := (heap w)[h := \<lparr>state = (if s = QUEUED then ASSIGNED else CANCELLED)\<rparr>],
              workers := (workers w)[i := Holding t (AtRun (if s = QUEUED then ASSIGNED else CANCELLED))]\<rparr>"
      by auto
    with Holding AtAssign h s(2) show ?thesis by (intro assign) auto
  next
    case (AtRun s)
    with ok have "s = ASSIGNED \<or> s = CANCELLED" by simp
    then show ?thesis
    proof
      assume "s = ASSIGNED"
      with Holding AtRun assms(2,3) show ?thesis by (intro run) auto
    next
      assume "s = CANCELLED"
      with Holding AtRun assms(2,3) show ?thesis by (intro skip) auto
    qed
  next
    case AtComplete
    with ok obtain s where s: "st (heap w) t = Some s" "s = ASSIGNED \<or> s = CANCELLED" by auto
    from st_SomeD [OF s(1)] obtain h where
      h: "task_state t = Some h" "h < length (heap w)" by blast
    from Task_TryUpdateState_st [OF s(1), of COMPLETED] h(1) s(2)
    have "Task_TryUpdateState t COMPLETED (heap w) =
        Inr (COMPLETED, (heap w)[h := \<lparr>state = COMPLETED\<rparr>])"
      by auto
    with Holding AtComplete assms(2,3)
    have "w' = w\<lparr>heap := (heap w)[h := \<lparr>state = COMPLETED\<rparr>],
              workers := (workers w)[i := Holding t AtNotify]\<rparr>"
      by auto
    with Holding AtComplete h show ?thesis by (intro complete) auto
  next
    case AtNotify
    with ok have "st (heap w) t = Some COMPLETED" by simp
    from st_SomeD [OF this] obtain h where
      h: "task_state t = Some h" "h < length (heap w)" "state (heap w ! h) = COMPLETED" by blast
    from Holding AtNotify assms(2,3) obtain q' where
      q': "NotifyOfCompletion (tp_queue w) = Inr q'"
        "w' = w\<lparr>tp_queue := q', workers := (workers w)[i := Popping]\<rparr>"
      by (auto split: sum.splits)
    from q'(1) have "queue q' = queue (tp_queue w)" "stopped q' = stopped (tp_queue w)"
      by (auto simp: NotifyOfCompletion_def Let_def split: if_splits)
    with Holding AtNotify h q'(2) show ?thesis by (intro notify) auto
  qed
qed

lemma in_flight_split:
  assumes "i < length (workers w)"
  shows "in_flight h w \<longleftrightarrow>
     (\<exists>t \<in> set (queue (tp_queue w)). task_state t = Some h)
     \<or> (\<exists>t pc. workers w ! i = Holding t pc \<and> task_state t = Some h)
     \<or> (\<exists>j < length (workers w). j \<noteq> i \<and> (\<exists>t pc. workers w ! j = Holding t pc \<and> task_state t = Some h))"
  using assms unfolding in_flight_def by blast

lemma in_flight_after:
  assumes "i < length (workers w)" and "workers w1 = (workers w)[i := k]"
  shows "in_flight h w1 \<longleftrightarrow>
     (\<exists>t \<in> set (queue (tp_queue w1)). task_state t = Some h)
     \<or> (\<exists>t pc. k = Holding t pc \<and> task_state t = Some h)
     \<or> (\<exists>j < length (workers w). j \<noteq> i \<and> (\<exists>t pc. workers w ! j = Holding t pc \<and> task_state t = Some h))"
proof -
  have i: "i < length (workers w1)" using assms by simp
  have "workers w1 ! i = k" using assms by simp
  moreover have "workers w1 ! j = workers w ! j" if "j \<noteq> i" for j using that assms(2) by simp
  moreover have "length (workers w1) = length (workers w)" using assms(2) by simp
  ultimately show ?thesis
    unfolding in_flight_split [OF i] by (simp cong: conj_cong)
qed

lemma in_flight_heap [simp]: "in_flight h (w\<lparr>heap := hp\<rparr>) = in_flight h w"
  by (simp add: in_flight_def)

lemma in_flight_run_log [simp]: "in_flight h (w\<lparr>run_log := r\<rparr>) = in_flight h w"
  by (simp add: in_flight_def)

lemma in_flight_queue:
  "in_flight h (w\<lparr>tp_queue := q\<rparr>) \<longleftrightarrow>
     (\<exists>t \<in> set (queue q). task_state t = Some h)
     \<or> (\<exists>j < length (workers w). \<exists>t pc. workers w ! j = Holding t pc \<and> task_state t = Some h)"
  by (simp add: in_flight_def)


lemma settled_Work:
  assumes "pool_inv w" and "settled h w" and "step (Work i) w = Inr w'"
  shows "settled h w'"
proof (cases "i < length (workers w)")
  case False
  with assms show ?thesis by simp
next
  case i: True
  note split = in_flight_split [OF i, of h] and after = in_flight_after [OF i, of w' _ h]
  from assms(1) i assms(3) show ?thesis
  proof (cases rule: Work_cases)
    case blocked
    with assms(2) show ?thesis by simp
  next
    case exit
    then have "in_flight h w' \<longleftrightarrow> in_flight h w"
      using after [of Returned] by (simp add: split)
    with assms(2) exit(4) show ?thesis
      by (simp add: settled_def)
  next
    case (pop t rest)
    then have "in_flight h w' \<longleftrightarrow> in_flight h w"
      using after [of "Holding t AtAssign"] by (auto simp: split)
    with assms(2) pop(3) show ?thesis
      by (simp add: settled_def)
  next
    case (assign t h' s)
    then have "in_flight h w' \<longleftrightarrow> in_flight h w"
      using after [of "Holding t (AtRun (if s = QUEUED then ASSIGNED else CANCELLED))"]
      by (simp add: split)
    moreover have "h' \<noteq> h" if "\<not> in_flight h w"
      using that assign(1,2) by (auto simp: split)
    ultimately show ?thesis
      using assms(2) assign(6) by (cases "in_flight h w") (auto simp: settled_def)
  next
    case (run t)
    then have "in_flight h w' \<longleftrightarrow> in_flight h w"
      using after [of "Holding t AtComplete"] by (simp add: split)
    with assms(2) run(2) show ?thesis
      by (simp add: settled_def)
  next
    case (skip t)
    then have "in_flight h w' \<longleftrightarrow> in_flight h w"
      using after [of "Holding t AtComplete"] by (simp add: split)
    with assms(2) skip(2) show ?thesis
      by (simp add: settled_def)
  next
    case (complete t h')
    then have "in_flight h w' \<longleftrightarrow> in_flight h w"
      using after [of "Holding t AtNotify"] by (simp add: split)
    moreover have "h' \<noteq> h" if "\<not> in_flight h w"
      using that complete(1,2) by (auto simp: split)
    ultimately show ?thesis
      using assms(2) complete(4) by (cases "in_flight h w") (auto simp: settled_def)
  next
    case (notify t h' q')
    then have "in_flight h w' \<or> h' = h" if "in_flight h w"
      using that after [of Popping] by (auto simp: split)
    with assms(2) notify(3,4,7) show ?thesis
      by (auto simp: settled_def)
  next
    case returned
    with assms(2) show ?thesis by simp
  qed
qed

lemma settled_step:
  assumes "pool_inv w" and "settled h w" and "step e w = Inr w'"
  shows "settled h w'"
proof (cases e)
  case (Work i)
  with assms show ?thesis by (auto intro: settled_Work)
next
  case (DoPost t)
  with assms(3) have "w' = (if stopped (tp_queue w) then w\<lparr>heap := heap w @ [\<lparr>state = INITIAL\<rparr>]\<rparr>
          else w\<lparr>heap := heap w @ [\<lparr>state = QUEUED\<rparr>],
                 tp_queue := (tp_queue w)
                   \<lparr>queue := queue (tp_queue w) @ [t\<lparr>task_state := Some (length (heap w))\<rparr>],
                    outstanding_tasks := outstanding_tasks (tp_queue w) + 1,
                    task_available_signals := task_available_signals (tp_queue w) + 1\<rparr>\<rparr>)"
    by (simp add: Post_result)
  with assms(2) show ?thesis
    by (auto simp: settled_def in_flight_def nth_append)
next
  case (DoCancel h')
  with assms(2,3) show ?thesis
    by (auto simp: settled_def Cancel_eq nth_list_update split: if_splits)
next
  case DoStop
  with assms(2,3) show ?thesis
    by (auto simp: settled_def in_flight_def Stop_def)
qed

lemma settled_exec:
  assumes "pool_inv w" and "settled h w" and "exec es w = Inr w'"
  shows "settled h w'"
  using assms
proof (induction es arbitrary: w)
  case Nil
  then show ?case by simp
next
  case (Cons e es)
  from inv_step [OF Cons.prems(1), of e] obtain w1 where w1: "step e w = Inr w1" "pool_inv w1"
    by blast
  from settled_step [OF Cons.prems(1,2) w1(1)] have "settled h w1" .
  with Cons.IH [OF w1(2)] Cons.prems(3) w1(1) show ?case by simp
qed

lemma joined_not_in_flight:
  assumes "pool_inv w" and "joined w"
  shows "queue (tp_queue w) = []" and "\<not> in_flight h w"
proof -
  from assms(2) have all: "\<forall>j < length (workers w). workers w ! j = Returned"
    by (simp add: joined_def list_all_length)
  from assms(1) have "workers w \<noteq> []" by (simp add: pool_inv_def)
  then have "0 < length (workers w)" by simp
  with all have "\<exists>j < length (workers w). workers w ! j = Returned" by blast
  with assms(1) show q: "queue (tp_queue w) = []" by (simp add: inv_defs)
  with all show "\<not> in_flight h w" by (auto simp: in_flight_def)
qed

lemma separate_queue:
  assumes "pool_inv w" and "t \<in> set (queue (tp_queue w))"
    and "j < length (workers w)" and "workers w ! j = Holding t' pc"
  shows "task_state t \<noteq> task_state t'"
  using assms unfolding inv_defs by blast

lemma separate_workers:
  assumes "pool_inv w" and "i < length (workers w)" and "j < length (workers w)" and "i \<noteq> j"
    and "workers w ! i = Holding t pc" and "workers w ! j = Holding t' pc'"
  shows "task_state t \<noteq> task_state t'"
  using assms unfolding inv_defs by blast

lemma will_run_frame:
  assumes wr: "will_run t w" and i: "i < length (workers w)"
    and ws: "workers w' = (workers w)[i := k]"
    and log: "set (run_log w) \<subseteq> set (run_log w')"
    and stt: "\<And>j pc. j < length (workers w) \<Longrightarrow> j \<noteq> i \<Longrightarrow> workers w ! j = Holding t pc
               \<Longrightarrow> st (heap w') t = st (heap w) t"
    and qu: "t \<in> set (queue (tp_queue w)) \<Longrightarrow> st (heap w) t = Some QUEUED \<Longrightarrow> will_run t w'"
    and own: "workers w ! i = Holding t AtAssign \<Longrightarrow> st (heap w) t = Some QUEUED \<Longrightarrow> will_run t w'"
    and own': "workers w ! i = Holding t (AtRun ASSIGNED) \<Longrightarrow> will_run t w'"
  shows "will_run t w'"
proof -
  from wr consider
      (ran) "t \<in> set (run_log w)"
    | (queued) "t \<in> set (queue (tp_queue w))" "st (heap w) t = Some QUEUED"
    | (popped) j where "j < length (workers w)" "workers w ! j = Holding t AtAssign"
        "st (heap w) t = Some QUEUED"
    | (assigned) j where "j < length (workers w)" "workers w ! j = Holding t (AtRun ASSIGNED)"
    by (auto simp: will_run_def)
  then show ?thesis
  proof cases
    case ran
    with log show ?thesis by (auto simp: will_run_def)
  next
    case queued
    then show ?thesis by (rule qu)
  next
    case (popped j)
    show ?thesis
    proof (cases "j = i")
      case True
      with popped own show ?thesis by simp
    next
      case False
      with popped ws stt [OF popped(1) False popped(2)]
      have "j < length (workers w')" "workers w' ! j = Holding t AtAssign"
        "st (heap w') t = Some QUEUED"
        by simp_all
      then show ?thesis unfolding will_run_def by blast
    qed
  next
    case (assigned j)
    show ?thesis
    proof (cases "j = i")
      case True
      with assigned own' show ?thesis by simp
    next
      case False
      with assigned ws
      have "j < length (workers w')" "workers w' ! j = Holding t (AtRun ASSIGNED)"
        by simp_all
      then show ?thesis unfolding will_run_def by blast
    qed
  qed
qed

lemma will_run_Work:
  assumes "pool_inv w" and "will_run t w" and "task_state t = Some h"
    and "step (Work i) w = Inr w'"
  shows "will_run t w'"
proof (cases "i < length (workers w)")
  case False
  with assms show ?thesis by simp
next
  case i: True
  note sq = separate_queue [OF assms(1)] and sw = separate_workers [OF assms(1)]
  note frame = will_run_frame [OF assms(2) i]
  from assms(1) i assms(4) show ?thesis
  proof (cases rule: Work_cases)
    case blocked
    with assms(2) show ?thesis by simp
  next
    case exit
    show ?thesis
      by (rule frame [of w' Returned]) (use exit in auto)
  next
    case (pop t2 rest)
    show ?thesis
    proof (rule frame [of w' "Holding t2 AtAssign"])
      assume q: "t \<in> set (queue (tp_queue w))" "st (heap w) t = Some QUEUED"
      show "will_run t w'"
      proof (cases "t = t2")
        case True
        with pop(3) i q(2) have "i < length (workers w')" "workers w' ! i = Holding t AtAssign"
          "st (heap w') t = Some QUEUED"
          by simp_all
        then show ?thesis unfolding will_run_def by blast
      next
        case False
        with q pop(2,3) show ?thesis by (simp add: will_run_def)
      qed
    qed (use pop in auto)
  next
    case (assign t2 h2 s)
    show ?thesis
    proof (rule frame [of w' "Holding t2 (AtRun (if s = QUEUED then ASSIGNED else CANCELLED))"])
      fix j pc assume "j < length (workers w)" "j \<noteq> i" "workers w ! j = Holding t pc"
      from sw [OF this(1) i this(2,3) assign(1)] assms(3) assign(2) have "h2 \<noteq> h" by simp
      with assign(6) assms(3) show "st (heap w') t = st (heap w) t" by (simp add: st_update)
    next
      assume q: "t \<in> set (queue (tp_queue w))" "st (heap w) t = Some QUEUED"
      from sq [OF q(1) i assign(1)] assms(3) assign(2) have "h2 \<noteq> h" by simp
      with q assign(6) assms(3) show "will_run t w'" by (simp add: will_run_def st_update)
    next
      assume "workers w ! i = Holding t AtAssign" "st (heap w) t = Some QUEUED"
      with assign have "t2 = t" "s = QUEUED" by (auto simp: st_def)
      with assign(6) i have "i < length (workers w')" "workers w' ! i = Holding t (AtRun ASSIGNED)"
        by simp_all
      then show "will_run t w'" unfolding will_run_def by blast
    qed (use assign in auto)
  next
    case (run t2)
    show ?thesis
      by (rule frame [of w' "Holding t2 AtComplete"]) (use run in \<open>auto simp: will_run_def\<close>)
  next
    case (skip t2)
    show ?thesis
      by (rule frame [of w' "Holding t2 AtComplete"]) (use skip in \<open>auto simp: will_run_def\<close>)
  next
    case (complete t2 h2)
    show ?thesis
    proof (rule frame [of w' "Holding t2 AtNotify"])
      fix j pc assume "j < length (workers w)" "j \<noteq> i" "workers w ! j = Holding t pc"
      from sw [OF this(1) i this(2,3) complete(1)] assms(3) complete(2) have "h2 \<noteq> h" by simp
      with complete(4) assms(3) show "st (heap w') t = st (heap w) t" by (simp add: st_update)
    next
      assume q: "t \<in> set (queue (tp_queue w))" "st (heap w) t = Some QUEUED"
      from sq [OF q(1) i complete(1)] assms(3) complete(2) have "h2 \<noteq> h" by simp
      with q complete(4) assms(3) show "will_run t w'" by (simp add: will_run_def st_update)
    qed (use complete in auto)
  next
    case (notify t2 h2 q')
    show ?thesis
      by (rule frame [of w' Popping]) (use notify in \<open>auto simp: will_run_def\<close>)
  next
    case returned
    with assms(2) show ?thesis by simp
  qed
qed

lemma will_run_step:
  assumes "pool_inv w" and "will_run t w" and "task_state t = Some h"
    and "e \<noteq> DoCancel h" and "step e w = Inr w'"
  shows "will_run t w'"
proof (cases e)
  case (Work i)
  with assms show ?thesis by (auto intro: will_run_Work)
next
  case (DoPost t2)
  with assms(5) have w': "w' = (if stopped (tp_queue w) then w\<lparr>heap := heap w @ [\<lparr>state = INITIAL\<rparr>]\<rparr>
          else w\<lparr>heap := heap w @ [\<lparr>state = QUEUED\<rparr>],
                 tp_queue := (tp_queue w)
                   \<lparr>queue := queue (tp_queue w) @ [t2\<lparr>task_state := Some (length (heap w))\<rparr>],
                    outstanding_tasks := outstanding_tasks (tp_queue w) + 1,
                    task_available_signals := task_available_signals (tp_queue w) + 1\<rparr>\<rparr>)"
    by (simp add: Post_result)
  have "st (heap w @ [x]) t = Some QUEUED" if "st (heap w) t = Some QUEUED" for x
    using that by (auto simp: st_append dest: st_SomeD)
  with assms(2) w' show ?thesis
    by (auto simp: will_run_def)
next
  case (DoCancel h')
  with assms(4) have "h' \<noteq> h" by simp
  with assms(2,3,5) DoCancel show ?thesis
    by (auto simp: will_run_def st_update split: if_splits prod.splits)
next
  case DoStop
  with assms(2,5) show ?thesis
    by (auto simp: will_run_def Stop_def)
qed

lemma will_run_exec:
  assumes "pool_inv w" and "will_run t w" and "task_state t = Some h"
    and "DoCancel h \<notin> set es" and "exec es w = Inr w'"
  shows "will_run t w'"
  using assms
proof (induction es arbitrary: w)
  case Nil
  then show ?case by simp
next
  case (Cons e es)
  from inv_step [OF Cons.prems(1), of e] obtain w1 where w1: "step e w = Inr w1" "pool_inv w1"
    by blast
  from Cons.prems(4) have "e \<noteq> DoCancel h" "DoCancel h \<notin> set es" by auto
  from will_run_step [OF Cons.prems(1,2,3) this(1) w1(1)] have "will_run t w1" .
  from Cons.IH [OF w1(2) this Cons.prems(3) \<open>DoCancel h \<notin> set es\<close>] Cons.prems(5) w1(1)
  show ?case by simp
qed

lemma joined_will_run:
  assumes "pool_inv w" and "joined w" and "will_run t w"
  shows "t \<in> set (run_log w)"
proof -
  from assms(2) have all: "\<forall>j < length (workers w). workers w ! j = Returned"
    by (simp add: joined_def list_all_length)
  from joined_not_in_flight(1) [OF assms(1,2)] have "queue (tp_queue w) = []" .
  with all assms(3) show ?thesis by (auto simp: will_run_def)
qed

section \<open>Properties of the rounding to a double\<close>

lemma ilog2_bounds:
  assumes "0 < x"
  shows "2 powi ilog2 x \<le> x" and "x < 2 powi (ilog2 x + 1)"
proof -
  have "2 powi ilog2 x \<le> x \<and> x < 2 powi (ilog2 x + 1)"
  proof (cases "1 \<le> x")
    case True
    let ?n = "\<lfloor>x\<rfloor>"
    from True have n: "0 < ?n" by simp
    from bitlen_bounds [OF n] have lo: "2 ^ nat (bitlen ?n - 1) \<le> ?n" and hi: "?n < 2 ^ nat (bitlen ?n)"
      by blast+
    from n have b: "1 \<le> bitlen ?n"
      using bitlen_eq_zero_iff [of ?n] bitlen_nonneg [of ?n] by linarith
    have i: "ilog2 x = bitlen ?n - 1" using True by (simp add: ilog2_def)
    have "(2::real) powi (bitlen ?n - 1) = 2 ^ nat (bitlen ?n - 1)"
      using b by (simp add: power_int_def)
    also have "\<dots> = of_int (2 ^ nat (bitlen ?n - 1))" by simp
    also have "\<dots> \<le> of_int ?n" using lo by (simp only: of_int_le_iff)
    also have "\<dots> \<le> x" by simp
    finally have 1: "2 powi ilog2 x \<le> x" using i by simp
    from hi have "?n + 1 \<le> 2 ^ nat (bitlen ?n)" by simp
    then have "(of_int (?n + 1) :: real) \<le> of_int (2 ^ nat (bitlen ?n))"
      by (simp only: of_int_le_iff)
    moreover have "x < of_int (?n + 1)" by simp
    ultimately have "x < of_int (2 ^ nat (bitlen ?n))" by linarith
    also have "\<dots> = 2 powi (bitlen ?n)"
      using b by (simp add: power_int_def)
    finally have 2: "x < 2 powi (ilog2 x + 1)" using i by simp
    from 1 2 show ?thesis by blast
  next
    case False
    let ?y = "1 / x"
    let ?m = "\<lceil>?y\<rceil>"
    from False assms have y: "1 < ?y" by simp
    then have m: "0 < ?m - 1" by simp
    from bitlen_bounds [OF m] have lo: "2 ^ nat (bitlen (?m - 1) - 1) \<le> ?m - 1"
      and hi: "?m - 1 < 2 ^ nat (bitlen (?m - 1))"
      by blast+
    from m have b: "1 \<le> bitlen (?m - 1)"
      using bitlen_eq_zero_iff [of "?m - 1"] bitlen_nonneg [of "?m - 1"] by linarith
    have i: "ilog2 x = - bitlen (?m - 1)" using False by (simp add: ilog2_def)
    from hi have "?m \<le> 2 ^ nat (bitlen (?m - 1))" by simp
    then have "(of_int ?m :: real) \<le> of_int (2 ^ nat (bitlen (?m - 1)))"
      by (simp only: of_int_le_iff)
    moreover have "?y \<le> of_int ?m" by simp
    moreover have "(of_int (2 ^ nat (bitlen (?m - 1))) :: real) = 2 ^ nat (bitlen (?m - 1))" by simp
    ultimately have "?y \<le> 2 ^ nat (bitlen (?m - 1))" by linarith
    then have "1 / 2 ^ nat (bitlen (?m - 1)) \<le> x"
      using assms by (simp add: field_simps)
    moreover have "(2::real) powi (- bitlen (?m - 1)) = 1 / 2 ^ nat (bitlen (?m - 1))"
      using b by (simp add: power_int_def field_simps)
    ultimately have 1: "2 powi ilog2 x \<le> x" using i by simp
    from lo have "(of_int (2 ^ nat (bitlen (?m - 1) - 1)) :: real) \<le> of_int (?m - 1)"
      by (simp only: of_int_le_iff)
    moreover have "of_int (?m - 1) < ?y" by linarith
    moreover have "(of_int (2 ^ nat (bitlen (?m - 1) - 1)) :: real) = 2 ^ nat (bitlen (?m - 1) - 1)" by simp
    ultimately have "2 ^ nat (bitlen (?m - 1) - 1) < ?y" by linarith
    then have "x < 1 / 2 ^ nat (bitlen (?m - 1) - 1)"
      using assms by (simp add: field_simps)
    moreover have "(2::real) powi (- bitlen (?m - 1) + 1) = 1 / 2 ^ nat (bitlen (?m - 1) - 1)"
    proof (cases "bitlen (?m - 1) = 1")
      case True
      then show ?thesis by simp
    next
      case False
      with b have "- bitlen (?m - 1) + 1 < 0" by simp
      moreover have "nat (- (- bitlen (?m - 1) + 1)) = nat (bitlen (?m - 1) - 1)" by simp
      ultimately show ?thesis by (simp add: power_int_def field_simps)
    qed
    ultimately have 2: "x < 2 powi (ilog2 x + 1)" using i by simp
    from 1 2 show ?thesis by blast
  qed
  then show "2 powi ilog2 x \<le> x" and "x < 2 powi (ilog2 x + 1)" by blast+
qed

lemma ilog2_unique:
  assumes "2 powi K \<le> x" and "x < 2 powi (K + 1)"
  shows "ilog2 x = K"
proof -
  have "(0::real) < 2 powi K" by simp
  with assms(1) have pos: "0 < x" by linarith
  note b = ilog2_bounds [OF pos]
  have "\<not> K + 1 \<le> ilog2 x"
  proof
    assume "K + 1 \<le> ilog2 x"
    then have "(2::real) powi (K + 1) \<le> 2 powi ilog2 x"
      by (rule power_int_increasing) simp
    with b(1) assms(2) show False by linarith
  qed
  moreover have "\<not> ilog2 x + 1 \<le> K"
  proof
    assume "ilog2 x + 1 \<le> K"
    then have "(2::real) powi (ilog2 x + 1) \<le> 2 powi K"
      by (rule power_int_increasing) simp
    with b(2) assms(1) show False by linarith
  qed
  ultimately show ?thesis by linarith
qed

lemma nearest_even_ge: "of_int m \<le> y \<Longrightarrow> m \<le> nearest_even y"
proof -
  assume "of_int m \<le> y"
  then have "m \<le> \<lfloor>y\<rfloor>" by (simp add: le_floor_iff)
  moreover have "\<lfloor>y\<rfloor> \<le> nearest_even y" by (simp add: nearest_even_def)
  ultimately show ?thesis by linarith
qed

lemma nearest_even_le:
  assumes "y < of_int m + 1 / 2"
  shows "nearest_even y \<le> m"
proof (cases "\<lfloor>y\<rfloor> = m")
  case True
  with assms have "y - of_int \<lfloor>y\<rfloor> < 1 / 2" by simp
  then show ?thesis using True by (simp add: nearest_even_def)
next
  case False
  from assms have "y < of_int (m + 1)" by simp
  then have "\<lfloor>y\<rfloor> < m + 1" by (simp only: floor_less_iff)
  with False have "\<lfloor>y\<rfloor> + 1 \<le> m" by linarith
  moreover have "nearest_even y \<le> \<lfloor>y\<rfloor> + 1" by (simp add: nearest_even_def)
  ultimately show ?thesis by linarith
qed

lemma nearest_even_of_int [simp]: "nearest_even (of_int j) = j"
  by (simp add: nearest_even_def)


lemma ulp_exponent_binade:
  assumes "2 powi K \<le> x" and "x < 2 powi (K + 1)" and "- 1022 \<le> K"
  shows "ulp_exponent x = K - 52"
proof -
  have "(0::real) < 2 powi K" by simp
  with assms(1) have "0 < x" by linarith
  then have "\<bar>x\<bar> = x" by simp
  with ilog2_unique [OF assms(1,2)] assms(3) show ?thesis
    by (simp add: ulp_exponent_def)
qed

lemma scaled_bounds:
  fixes x p P :: real
  assumes "0 < p" and "p * P = 1"
  shows "of_int N \<le> x * P \<Longrightarrow> of_int N * p \<le> x"
    and "x * P < of_int M + 1 / 2 \<Longrightarrow> x < (of_int M + 1 / 2) * p"
    and "of_int N * p \<le> x \<Longrightarrow> of_int N \<le> x * P"
    and "x < (of_int M + 1 / 2) * p \<Longrightarrow> x * P < of_int M + 1 / 2"
proof -
  have P: "0 < P"
  proof (rule ccontr)
    assume "\<not> 0 < P"
    then have "P \<le> 0" by simp
    with assms(1) have "p * P \<le> 0" by (simp add: mult_le_0_iff)
    with assms(2) show False by simp
  qed
  have x: "x * P * p = x" using assms(2) by (simp add: mult.assoc mult.commute)
  have q: "a * p * P = a" for a :: real using assms(2) by (simp add: mult.assoc)
  {
    assume "of_int N \<le> x * P"
    then have "of_int N * p \<le> x * P * p" using assms(1) by (simp only: mult_right_mono less_imp_le)
    then show "of_int N * p \<le> x" using x by simp
  }
  {
    assume "x * P < of_int M + 1 / 2"
    then have "x * P * p < (of_int M + 1 / 2) * p" using assms(1) by (rule mult_strict_right_mono)
    then show "x < (of_int M + 1 / 2) * p" using x by simp
  }
  {
    assume "of_int N * p \<le> x"
    then have "of_int N * p * P \<le> x * P" using P by (simp only: mult_right_mono less_imp_le)
    then show "of_int N \<le> x * P" using q [of "of_int N"] by simp
  }
  {
    assume "x < (of_int M + 1 / 2) * p"
    then have "x * P < (of_int M + 1 / 2) * p * P" using P by (rule mult_strict_right_mono)
    then show "x * P < of_int M + 1 / 2" using q [of "of_int M + 1 / 2"] by simp
  }
qed

lemma powi_grid:
  assumes "e \<le> 0"
  shows "(2::real) powi e * of_int (2 ^ nat (- e)) = 1" and "1 / (2::real) powi e = of_int (2 ^ nat (- e))"
proof -
  have "of_int (2 ^ nat (- e)) = (2::real) powi (- e)"
    using assms by (simp add: power_int_def)
  then show 1: "(2::real) powi e * of_int (2 ^ nat (- e)) = 1"
    using power_int_add [of "2::real" e "- e"] by simp
  have "(0::real) < 2 powi e" by simp
  with 1 show "1 / (2::real) powi e = of_int (2 ^ nat (- e))" by (simp add: field_simps)
qed

lemma round_double_grid:
  assumes "2 powi K \<le> x" and "x < 2 powi (K + 1)" and "- 1022 \<le> K" and "K \<le> 52"
  shows "round_double x = of_int (nearest_even (x * of_int (2 ^ nat (52 - K)))) * 2 powi (K - 52)"
proof -
  have "(0::real) < 2 powi K" by simp
  with assms(1) have pos: "0 < x" by linarith
  have e: "ulp_exponent x = K - 52" using assms(1-3) by (rule ulp_exponent_binade)
  have "K - 52 \<le> 0" using assms(4) by simp
  from powi_grid(2) [OF this] have "x / 2 powi (K - 52) = x * of_int (2 ^ nat (52 - K))"
    by (simp add: field_simps)
  with pos e show ?thesis by (simp add: round_double_def)
qed

lemma round_double_between:
  assumes "2 powi K \<le> x" and "x < 2 powi (K + 1)" and "- 1022 \<le> K" and "K \<le> 52"
    and "of_int n \<le> x" and "x < of_int n + 1 - 2 powi (K - 53)"
  shows "of_int n \<le> round_double x" and "round_double x < of_int n + 1"
proof -
  define p :: real where "p = 2 powi (K - 52)"
  define Pi :: int where "Pi = 2 ^ nat (52 - K)"
  define P :: real where "P = of_int Pi"
  define r where "r = nearest_even (x * P)"
  have "K - 52 \<le> 0" using assms(4) by simp
  from powi_grid(1) [OF this] have pP: "p * P = 1" by (simp add: p_def P_def Pi_def)
  have p: "0 < p" by (simp add: p_def)
  have rd: "round_double x = of_int r * p"
    using round_double_grid [OF assms(1-4)] by (simp add: r_def P_def Pi_def p_def)
  have half: "2 powi (K - 53) = p / 2"
    using power_int_add [of "2::real" "K - 52" "- 1"] by (simp add: p_def)
  have unscale: "of_int (k * Pi) * p = of_int k" for k
  proof -
    have "of_int (k * Pi) * p = of_int k * (p * P)"
      by (simp only: P_def of_int_mult mult_ac)
    then show ?thesis by (simp only: pP mult_1_right)
  qed
  have "of_int (n * Pi) * p \<le> x"
    using assms(5) by (simp only: unscale)
  from scaled_bounds(3) [OF p pP this] have "n * Pi \<le> r"
    unfolding r_def by (rule nearest_even_ge)
  then have "(of_int (n * Pi) :: real) \<le> of_int r" by (simp only: of_int_le_iff)
  then have "of_int (n * Pi) * p \<le> of_int r * p"
    using p by (simp only: mult_right_mono less_imp_le)
  then show "of_int n \<le> round_double x" by (simp only: unscale rd)
  have "(of_int ((n + 1) * Pi - 1) + 1 / 2) * p = of_int ((n + 1) * Pi) * p - p / 2"
    by (simp add: algebra_simps)
  also have "\<dots> = of_int n + 1 - p / 2" by (simp only: unscale of_int_add of_int_1)
  finally have "x < (of_int ((n + 1) * Pi - 1) + 1 / 2) * p"
    using assms(6) half by simp
  from scaled_bounds(4) [OF p pP this] have "r \<le> (n + 1) * Pi - 1"
    unfolding r_def by (rule nearest_even_le)
  then have "(of_int r :: real) \<le> of_int ((n + 1) * Pi - 1)" by (simp only: of_int_le_iff)
  then have "of_int r * p \<le> of_int ((n + 1) * Pi - 1) * p"
    using p by (simp only: mult_right_mono less_imp_le)
  moreover have "of_int ((n + 1) * Pi - 1) * p = of_int ((n + 1) * Pi) * p - p"
    by (simp add: algebra_simps)
  moreover have "of_int ((n + 1) * Pi) * p = of_int n + 1"
    by (simp only: unscale of_int_add of_int_1)
  ultimately have "of_int r * p \<le> of_int n + 1 - p" by linarith
  with p rd show "round_double x < of_int n + 1" by linarith
qed


lemma double_on_grid:
  assumes "is_double d" and "2 powi K \<le> d" and "d < 2 powi (K + 1)" and "- 1022 \<le> K"
  shows "\<exists>j. d = of_int j * 2 powi (K - 52)"
proof -
  have "(0::real) < 2 powi K" by simp
  with assms(2) have "d \<noteq> 0" by linarith
  moreover have "ulp_exponent d = K - 52" using assms(2-4) by (rule ulp_exponent_binade)
  moreover from assms(1) have "round_double d = d" by (simp add: is_double_def)
  ultimately have "d = of_int (nearest_even (d / 2 powi (K - 52))) * 2 powi (K - 52)"
    by (simp add: round_double_def)
  then show ?thesis ..
qed


lemma nearest_even_below_half:
  assumes "0 \<le> t" and "t < 1 / 2"
  shows "nearest_even (of_int j + t) = j"
proof -
  have "\<lfloor>of_int j + t\<rfloor> = j"
    using assms by (intro floor_unique) simp_all
  with assms show ?thesis by (simp add: nearest_even_def)
qed

lemma nearest_even_half:
  "nearest_even (of_int j + 1 / 2) = (if even j then j else j + 1)"
proof -
  have "\<lfloor>of_int j + (1 / 2 :: real)\<rfloor> = j"
    by (intro floor_unique) simp_all
  then show ?thesis by (simp add: nearest_even_def)
qed

lemma is_double_on_grid:
  assumes "2 powi K \<le> d" and "d < 2 powi (K + 1)" and "- 1022 \<le> K" and "K \<le> 52"
    and "d * of_int (2 ^ nat (52 - K)) = of_int j"
  shows "is_double d"
proof -
  have "K - 52 \<le> 0" using assms(4) by simp
  from powi_grid(1) [OF this] have pP: "2 powi (K - 52) * of_int (2 ^ nat (52 - K)) = (1::real)"
    by simp
  have "round_double d = of_int j * 2 powi (K - 52)"
    using round_double_grid [OF assms(1-4)] by (simp only: assms(5) nearest_even_of_int)
  also have "\<dots> = d * (2 powi (K - 52) * of_int (2 ^ nat (52 - K)))"
    by (simp only: assms(5) [symmetric] mult_ac)
  also have "\<dots> = d" by (simp only: pP mult_1_right)
  finally have 1: "round_double d = d" .
  have "(0::real) < 2 powi K" by simp
  with assms(1) have pos: "0 < d" by linarith
  have "(2::real) powi (K + 1) \<le> 2 powi 53"
    using assms(4) by (intro power_int_increasing) simp_all
  with assms(2) have "d < 2 ^ 53" by simp
  also have "\<dots> < (2::real) ^ 1024" by simp
  finally have "\<bar>d\<bar> < 2 ^ 1024" using pos by simp
  with 1 show ?thesis by (simp add: is_double_def)
qed


section \<open>Properties of the delay computation\<close>

lemma cast_between:
  fixes y :: real
  assumes "of_int n \<le> y" and "y < of_int n + 1" and "0 \<le> n" and "n < 2 ^ 64"
  shows "(if - 1 < y \<and> y < 2 ^ 64
          then Inr (word_of_int (if 0 \<le> y then \<lfloor>y\<rfloor> else \<lceil>y\<rceil>) * 1000)
          else Inl UndefinedCast) = (Inr (word_of_int n * 1000) :: error + 64 word)"
proof -
  have fl: "\<lfloor>y\<rfloor> = n" using assms(1,2) by (simp add: floor_eq_iff)
  have "(0::real) \<le> of_int n" using assms(3) by simp
  with assms(1) have lo: "0 \<le> y" by linarith
  have "n + 1 \<le> 2 ^ 64" using assms(4) by simp
  then have "(of_int (n + 1) :: real) \<le> of_int (2 ^ 64)"
    by (rule of_int_le_iff [THEN iffD2])
  then have "(of_int n :: real) + 1 \<le> 2 ^ 64" by simp
  with assms(2) have hi: "y < 2 ^ 64" by linarith
  from lo hi fl show ?thesis by simp
qed

lemma delay_millis_between:
  assumes "2 powi K \<le> d + 1 / 2" and "d + 1 / 2 < 2 powi (K + 1)" and "- 1022 \<le> K" and "K \<le> 52"
    and "of_int n \<le> d + 1 / 2" and "d + 1 / 2 < of_int n + 1 - 2 powi (K - 53)"
    and "0 \<le> n"
  shows "delay_millis d = Inr (word_of_int n * 1000)"
proof -
  note b = round_double_between [OF assms(1-6)]
  have "(2::real) powi (K + 1) \<le> 2 powi 53"
    using assms(4) by (intro power_int_increasing) simp_all
  with assms(2,5) have "(of_int n :: real) < 2 ^ 53" by simp
  also have "\<dots> < 2 ^ 64" by simp
  finally have "(of_int n :: real) < of_int (2 ^ 64)" by simp
  then have "n < 2 ^ 64" by (simp only: of_int_less_iff)
  from cast_between [OF b assms(7) this] show ?thesis
    by (simp add: delay_millis_def Let_def)
qed


lemma delay_millis_0:
  assumes "0 \<le> d" and "d < 1 / 2 - 1 / 2 ^ 54"
  shows "delay_millis d = Inr 0"
proof -
  have "delay_millis d = Inr (word_of_int 0 * 1000)"
  proof (rule delay_millis_between [where K = "- 1"])
    show "2 powi - 1 \<le> d + 1 / 2" using assms(1) by simp
    show "d + 1 / 2 < 2 powi (- 1 + 1)" using assms(2) by simp
    show "of_int 0 \<le> d + 1 / 2" using assms(1) by simp
    show "d + 1 / 2 < of_int 0 + 1 - 2 powi (- 1 - 53)" using assms(2) by simp
  qed simp_all
  then show ?thesis by simp
qed

lemma delay_millis_1:
  assumes "1 / 2 \<le> d" and "d < 3 / 2 - 1 / 2 ^ 53"
  shows "delay_millis d = Inr 1000"
proof -
  have "delay_millis d = Inr (word_of_int 1 * 1000)"
  proof (rule delay_millis_between [where K = 0])
    show "2 powi 0 \<le> d + 1 / 2" using assms(1) by simp
    show "d + 1 / 2 < 2 powi (0 + 1)" using assms(2) by simp
    show "of_int 1 \<le> d + 1 / 2" using assms(1) by simp
    show "d + 1 / 2 < of_int 1 + 1 - 2 powi (0 - 53)" using assms(2) by simp
  qed simp_all
  then show ?thesis by simp
qed

lemma delay_millis_2:
  assumes "3 / 2 \<le> d" and "d < 5 / 2 - 1 / 2 ^ 52"
  shows "delay_millis d = Inr 2000"
proof -
  have "delay_millis d = Inr (word_of_int 2 * 1000)"
  proof (rule delay_millis_between [where K = 1])
    show "2 powi 1 \<le> d + 1 / 2" using assms(1) by simp
    show "d + 1 / 2 < 2 powi (1 + 1)" using assms(2) by simp
    show "of_int 2 \<le> d + 1 / 2" using assms(1) by simp
    show "d + 1 / 2 < of_int 2 + 1 - 2 powi (1 - 53)" using assms(2) by simp
  qed simp_all
  then show ?thesis by simp
qed


text \<open>
  Claim C7. The delay computation maps 0.4 s to 0 ms, 0.5 s to 1000 ms, 1.499 s to
  1000 ms and 1.5 s to 2000 ms. The decimal values 0.4 and 1.499 are not themselves
  \<^verbatim>\<open>double\<close>s: the results are the same for every delay within 0.001 of 0.4 and within
  0.0001 of 1.499, which covers the \<^verbatim>\<open>double\<close>s nearest to them.
\<close>

theorem C7_delay_examples:
  "delay_millis (4 / 10) = Inr 0
   \<and> delay_millis (1 / 2) = Inr 1000
   \<and> delay_millis (1499 / 1000) = Inr 1000
   \<and> delay_millis (3 / 2) = Inr 2000
   \<and> (\<forall>d. \<bar>d - 4 / 10\<bar> \<le> 1 / 1000 \<longrightarrow> delay_millis d = Inr 0)
   \<and> (\<forall>d. \<bar>d - 1499 / 1000\<bar> \<le> 1 / 10000 \<longrightarrow> delay_millis d = Inr 1000)"
proof -
  have near0: "delay_millis d = Inr 0" if "\<bar>d - 4 / 10\<bar> \<le> 1 / 1000" for d
  proof -
    from that have "d - 4 / 10 \<le> 1 / 1000" and "- (d - 4 / 10) \<le> 1 / 1000"
      unfolding abs_le_iff by blast+
    then have "0 \<le> d" and "d < 1 / 2 - 1 / 2 ^ 54"
      by simp_all
    then show ?thesis by (rule delay_millis_0)
  qed
  have near1: "delay_millis d = Inr 1000" if "\<bar>d - 1499 / 1000\<bar> \<le> 1 / 10000" for d
  proof -
    from that have "d - 1499 / 1000 \<le> 1 / 10000" and "- (d - 1499 / 1000) \<le> 1 / 10000"
      unfolding abs_le_iff by blast+
    then have "1 / 2 \<le> d" and "d < 3 / 2 - 1 / 2 ^ 53"
      by simp_all
    then show ?thesis by (rule delay_millis_1)
  qed
  have "delay_millis (4 / 10) = Inr 0" by (rule delay_millis_0) simp_all
  moreover have "delay_millis (1 / 2) = Inr 1000" by (rule delay_millis_1) simp_all
  moreover have "delay_millis (1499 / 1000) = Inr 1000" by (rule delay_millis_1) simp_all
  moreover have "delay_millis (3 / 2) = Inr 2000" by (rule delay_millis_2) simp_all
  ultimately show ?thesis using near0 near1 by blast
qed

theorem C7_delay_examples_witness:
  "\<bar>(3602879701896397 / 9007199254740992 :: real) - 4 / 10\<bar> \<le> 1 / 1000
   \<and> delay_millis (3602879701896397 / 9007199254740992) = Inr 0
   \<and> \<bar>(14991 / 10000 :: real) - 1499 / 1000\<bar> \<le> 1 / 10000
   \<and> delay_millis (14991 / 10000) = Inr 1000"
proof -
  have a: "\<bar>(3602879701896397 / 9007199254740992 :: real) - 4 / 10\<bar> \<le> 1 / 1000"
    and b: "\<bar>(14991 / 10000 :: real) - 1499 / 1000\<bar> \<le> 1 / 10000"
    by simp_all
  from C7_delay_examples have
    "\<forall>d. \<bar>d - 4 / 10\<bar> \<le> 1 / 1000 \<longrightarrow> delay_millis d = Inr 0"
    and "\<forall>d. \<bar>d - 1499 / 1000\<bar> \<le> 1 / 10000 \<longrightarrow> delay_millis d = Inr 1000"
    by blast+
  with a b show ?thesis by blast
qed

lemma delay_millis_half_up_mid:
  assumes dbl: "is_double d" and lo: "1 / 2 \<le> d" and hi: "d < 2 ^ 52"
  shows "delay_millis d = Inr (word_of_int \<lfloor>d + 1 / 2\<rfloor> * 1000)"
proof -
  define Kd where "Kd = ilog2 d"
  from lo have pos: "0 < d" by simp
  note b = ilog2_bounds [OF pos, folded Kd_def]
  have K1: "- 1 \<le> Kd"
  proof (rule ccontr)
    assume "\<not> - 1 \<le> Kd"
    then have "Kd + 1 \<le> - 1" by simp
    then have "(2::real) powi (Kd + 1) \<le> 2 powi (- 1)"
      by (rule power_int_increasing) simp
    with b(2) lo show False by simp
  qed
  have K2: "Kd \<le> 51"
  proof (rule ccontr)
    assume "\<not> Kd \<le> 51"
    then have "52 \<le> Kd" by simp
    then have "(2::real) powi 52 \<le> 2 powi Kd"
      by (rule power_int_increasing) simp
    with b(1) hi show False by simp
  qed
  from K1 have K3: "- 1022 \<le> Kd" by simp
  from double_on_grid [OF dbl b K3] obtain j where j: "d = of_int j * 2 powi (Kd - 52)" ..
  define Pi :: int where "Pi = 2 ^ nat (52 - Kd)"
  define p :: real where "p = 2 powi (Kd - 52)"
  define h :: int where "h = 2 ^ nat (51 - Kd)"
  define n where "n = \<lfloor>d + 1 / 2\<rfloor>"
  have "Kd - 52 \<le> 0" using K2 by simp
  from powi_grid(1) [OF this] have pP: "p * of_int Pi = 1" by (simp add: p_def Pi_def)
  have p: "0 < p" by (simp add: p_def)
  have "nat (52 - Kd) = Suc (nat (51 - Kd))" using K2 by simp
  then have hP: "Pi = 2 * h" by (simp add: Pi_def h_def)
  have unscale: "of_int (k * Pi) * p = of_int k" for k
  proof -
    have "of_int (k * Pi) * p = of_int k * (p * of_int Pi)"
      by (simp only: of_int_mult mult_ac)
    then show ?thesis by (simp only: pP mult_1_right)
  qed
  have half: "of_int h * p = 1 / 2"
  proof -
    have "2 * (of_int h * p) = of_int (1 * Pi) * p" by (simp add: hP)
    also have "\<dots> = of_int 1" by (rule unscale)
    finally show ?thesis by simp
  qed
  have n0: "of_int n \<le> d + 1 / 2" and n1: "d + 1 / 2 < of_int n + 1"
    by (simp_all add: n_def)
  have npos: "0 \<le> n" using lo by (simp add: n_def)
  have xg: "d + 1 / 2 = of_int (j + h) * p"
    using j half by (simp add: p_def algebra_simps)
  have ng: "of_int n + 1 = of_int ((n + 1) * Pi) * p"
    by (simp only: unscale of_int_add of_int_1)
  from n1 have "of_int (j + h) * p < of_int ((n + 1) * Pi) * p"
    by (simp only: xg ng)
  then have "(of_int (j + h) :: real) < of_int ((n + 1) * Pi)"
    using p by (simp only: mult_less_cancel_right_pos)
  then have "j + h < (n + 1) * Pi" by (simp only: of_int_less_iff)
  then have "j + h + 1 \<le> (n + 1) * Pi" by simp
  then have "(of_int (j + h + 1) :: real) \<le> of_int ((n + 1) * Pi)" by (simp only: of_int_le_iff)
  then have "of_int (j + h + 1) * p \<le> of_int ((n + 1) * Pi) * p"
    using p by (simp only: mult_right_mono less_imp_le)
  moreover have "of_int (j + h + 1) * p = of_int (j + h) * p + p"
    by (simp add: algebra_simps)
  ultimately have gap: "d + 1 / 2 + p \<le> of_int n + 1"
    by (simp only: xg ng)
  have "delay_millis d = Inr (word_of_int n * 1000)"
  proof (cases "d + 1 / 2 < 2 powi (Kd + 1)")
    case True
    show ?thesis
    proof (rule delay_millis_between [where K = Kd])
      show "2 powi Kd \<le> d + 1 / 2" using b(1) by simp
      show "d + 1 / 2 < 2 powi (Kd + 1)" by fact
      show "- 1022 \<le> Kd" by fact
      show "Kd \<le> 52" using K2 by simp
      show "of_int n \<le> d + 1 / 2" by fact
      have "2 powi (Kd - 53) = p / 2"
        using power_int_add [of "2::real" "Kd - 52" "- 1"] by (simp add: p_def)
      with gap p show "d + 1 / 2 < of_int n + 1 - 2 powi (Kd - 53)" by linarith
      show "0 \<le> n" by fact
    qed
  next
    case False
    then have ge: "2 powi (Kd + 1) \<le> d + 1 / 2" by simp
    have "d + 1 / 2 \<le> 2 * d" using lo by simp
    also have "\<dots> < 2 * 2 powi (Kd + 1)" using b(2) by simp
    also have "\<dots> = 2 powi (Kd + 1 + 1)"
      using power_int_add [of "2::real" "Kd + 1" 1] by simp
    finally have lt: "d + 1 / 2 < 2 powi (Kd + 1 + 1)" .
    define N0 :: int where "N0 = 2 ^ nat (Kd + 1)"
    have N0: "of_int N0 = (2::real) powi (Kd + 1)"
      using K1 by (simp add: power_int_def N0_def)
    from ge N0 have "of_int N0 \<le> d + 1 / 2" by simp
    then have "N0 \<le> n" by (simp add: n_def le_floor_iff)
    then have "(of_int N0 :: real) \<le> of_int n" by (simp only: of_int_le_iff)
    with b(2) N0 have dn: "d < of_int n" by simp
    have "Kd + 1 - 53 \<le> - 1" using K2 by simp
    then have "(2::real) powi (Kd + 1 - 53) \<le> 2 powi (- 1)"
      by (rule power_int_increasing) simp
    then have small: "(2::real) powi (Kd + 1 - 53) \<le> 1 / 2" by simp
    show ?thesis
    proof (rule delay_millis_between [where K = "Kd + 1"])
      show "2 powi (Kd + 1) \<le> d + 1 / 2" by fact
      show "d + 1 / 2 < 2 powi (Kd + 1 + 1)" by fact
      show "- 1022 \<le> Kd + 1" using K1 by simp
      show "Kd + 1 \<le> 52" using K2 by simp
      show "of_int n \<le> d + 1 / 2" by fact
      from dn small show "d + 1 / 2 < of_int n + 1 - 2 powi (Kd + 1 - 53)" by linarith
      show "0 \<le> n" by fact
    qed
  qed
  then show ?thesis by (simp only: n_def)
qed

lemma delay_millis_half_up_small:
  assumes dbl: "is_double d" and lo: "0 \<le> d" and hi: "d < 1 / 2" and ne: "d \<noteq> 1 / 2 - 1 / 2 ^ 54"
  shows "delay_millis d = Inr 0"
proof (cases "d < 1 / 4")
  case True
  with lo show ?thesis by (intro delay_millis_0) simp_all
next
  case False
  then have q: "2 powi (- 2) \<le> d" by simp
  from hi have h: "d < 2 powi (- 2 + 1)" by simp
  from double_on_grid [OF dbl q h] obtain j where j: "d = of_int j * 2 powi (- 2 - 52)" by auto
  then have d: "d = of_int j / 2 ^ 54" by (simp add: field_simps)
  with hi have "(of_int j :: real) < 2 ^ 53" by (simp add: field_simps)
  then have "(of_int j :: real) < of_int (2 ^ 53)" by simp
  then have "j < 2 ^ 53" by (simp only: of_int_less_iff)
  moreover have "j \<noteq> 2 ^ 53 - 1"
  proof
    assume "j = 2 ^ 53 - 1"
    with d have "d = 1 / 2 - 1 / 2 ^ 54" by (simp add: field_simps)
    with ne show False by simp
  qed
  ultimately have "j \<le> 2 ^ 53 - 2" by simp
  then have "(of_int j :: real) \<le> of_int (2 ^ 53 - 2)" by (simp only: of_int_le_iff)
  then have "(of_int j :: real) \<le> 2 ^ 53 - 2" by simp
  with d have "d \<le> (2 ^ 53 - 2) / 2 ^ 54" by (simp add: field_simps)
  then have "d < 1 / 2 - 1 / 2 ^ 54" by simp
  with lo show ?thesis by (intro delay_millis_0) simp_all
qed

lemma delay_millis_half_up_large:
  assumes dbl: "is_double d" and lo: "2 ^ 52 \<le> d" and hi: "d + 1 / 2 < 2 ^ 64"
    and ev: "d < 2 ^ 53 \<Longrightarrow> even \<lfloor>d\<rfloor>"
  shows "delay_millis d = Inr (word_of_int \<lfloor>d + 1 / 2\<rfloor> * 1000)"
proof -
  define Kd where "Kd = ilog2 d"
  have "(0::real) < 2 ^ 52" by simp
  with lo have pos: "0 < d" by linarith
  note b = ilog2_bounds [OF pos, folded Kd_def]
  have K1: "52 \<le> Kd"
  proof (rule ccontr)
    assume "\<not> 52 \<le> Kd"
    then have "Kd + 1 \<le> 52" by simp
    then have "(2::real) powi (Kd + 1) \<le> 2 powi 52"
      by (rule power_int_increasing) simp
    with b(2) lo show False by simp
  qed
  have K2: "Kd \<le> 63"
  proof (rule ccontr)
    assume "\<not> Kd \<le> 63"
    then have "64 \<le> Kd" by simp
    then have "(2::real) powi 64 \<le> 2 powi Kd"
      by (rule power_int_increasing) simp
    with b(1) hi show False by simp
  qed
  from K1 have K3: "- 1022 \<le> Kd" by simp
  from double_on_grid [OF dbl b K3] obtain j where j: "d = of_int j * 2 powi (Kd - 52)" ..
  define Pn :: int where "Pn = 2 ^ nat (Kd - 52)"
  have P: "(2::real) powi (Kd - 52) = of_int Pn"
    using K1 by (simp add: power_int_def Pn_def)
  have Ppos: "0 < Pn" by (simp add: Pn_def)
  then have P1: "1 \<le> Pn" by simp
  have dj: "d = of_int (j * Pn)" using j P by simp
  have "Kd + 1 = 53 + (Kd - 52)" by simp
  then have "(2::real) powi (Kd + 1) = 2 powi (53 + (Kd - 52))" by (simp only:)
  also have "\<dots> = 2 powi 53 * 2 powi (Kd - 52)" by (rule power_int_add) simp
  finally have top: "(2::real) powi (Kd + 1) = of_int (2 ^ 53 * Pn)"
    using P by simp
  from b(2) have "(of_int (j * Pn) :: real) < of_int (2 ^ 53 * Pn)"
    by (simp only: dj top)
  then have "j * Pn < 2 ^ 53 * Pn" by (simp only: of_int_less_iff)
  then have "j < 2 ^ 53" using Ppos by (simp only: mult_less_cancel_right_pos)
  then have "j + 1 \<le> 2 ^ 53" by simp
  then have "(j + 1) * Pn \<le> 2 ^ 53 * Pn" using Ppos by (simp only: mult_right_mono less_imp_le)
  then have "(of_int ((j + 1) * Pn) :: real) \<le> of_int (2 ^ 53 * Pn)" by (simp only: of_int_le_iff)
  then have "of_int (j * Pn) + of_int Pn \<le> (2::real) powi (Kd + 1)"
    by (simp only: top) (simp add: algebra_simps)
  moreover have "(1::real) \<le> of_int Pn" using P1 by simp
  ultimately have xhi: "d + 1 / 2 < 2 powi (Kd + 1)" using dj by linarith
  have xlo: "2 powi Kd \<le> d + 1 / 2" using b(1) by simp
  have xpos: "d + 1 / 2 \<noteq> 0" using pos by simp
  have e: "ulp_exponent (d + 1 / 2) = Kd - 52" using xlo xhi K3 by (rule ulp_exponent_binade)
  define t :: real where "t = 1 / (2 * of_int Pn)"
  have y: "(d + 1 / 2) / of_int Pn = of_int j + t"
    using Ppos by (simp add: dj t_def field_simps)
  have t0: "0 \<le> t" using Ppos by (simp add: t_def)
  have ne: "nearest_even (of_int j + t) = j"
  proof (cases "Kd = 52")
    case True
    then have "Pn = 1" by (simp add: Pn_def)
    then have th: "t = 1 / 2" and "d = of_int j" by (simp_all add: t_def dj)
    moreover from True b(2) have "d < 2 ^ 53" by simp
    then have "even \<lfloor>d\<rfloor>" by (rule ev)
    ultimately have "even j" by simp
    then show ?thesis unfolding th by (simp only: nearest_even_half if_True)
  next
    case False
    with K1 have "nat (Kd - 52) = Suc (nat (Kd - 53))" by simp
    then have "Pn = 2 * 2 ^ nat (Kd - 53)" by (simp add: Pn_def)
    moreover have "(1::int) \<le> 2 ^ nat (Kd - 53)" by simp
    ultimately have "2 \<le> Pn" by linarith
    then have "(2::real) \<le> of_int Pn" by simp
    then have "t \<le> 1 / 4" using Ppos by (simp add: t_def field_simps)
    then have "t < 1 / 2" by simp
    with t0 show ?thesis by (rule nearest_even_below_half)
  qed
  have "round_double (d + 1 / 2) = of_int j * of_int Pn"
    using xpos by (simp only: round_double_def e P y ne if_False)
  then have rd: "round_double (d + 1 / 2) = d" using dj by simp
  have fl: "\<lfloor>d\<rfloor> = j * Pn" by (simp only: dj floor_of_int)
  have fl': "\<lfloor>d + 1 / 2\<rfloor> = j * Pn"
    unfolding dj by (intro floor_unique) simp_all
  from hi have "d < 2 ^ 64" by simp
  with pos rd fl fl' show ?thesis
    by (simp add: delay_millis_def)
qed

lemma delay_millis_below_half: "delay_millis (1 / 2 - 1 / 2 ^ 54) = Inr 1000"
proof -
  let ?x = "1 / 2 - 1 / 2 ^ 54 + 1 / 2 :: real"
  have "round_double ?x = of_int (nearest_even (?x * of_int (2 ^ nat (52 - (- 1))))) * 2 powi (- 1 - 52)"
    by (rule round_double_grid) simp_all
  moreover have "?x * of_int (2 ^ nat (52 - (- 1))) = of_int (2 ^ 53 - 1) + 1 / 2"
    by simp
  ultimately have "round_double ?x = of_int (nearest_even (of_int (2 ^ 53 - 1) + 1 / 2)) * 2 powi (- 1 - 52)"
    by (simp only:)
  then have "round_double ?x = 1"
    by (simp only: nearest_even_half) simp
  then show ?thesis by (simp add: delay_millis_def)
qed

lemma delay_millis_odd:
  assumes "2 ^ 52 \<le> (of_int j :: real)" and "(of_int j :: real) < 2 ^ 53" and "odd j"
  shows "is_double (of_int j)" and "delay_millis (of_int j) = Inr (word_of_int (j + 1) * 1000)"
proof -
  let ?x = "of_int j + 1 / 2 :: real"
  from assms(1) have lo: "2 powi 52 \<le> (of_int j :: real)" by simp
  from assms(2) have hi: "(of_int j :: real) < 2 powi (52 + 1)" by simp
  show "is_double (of_int j)"
    using lo hi by (rule is_double_on_grid [where j = j]) simp_all
  from assms(2) have "(of_int j :: real) < of_int (2 ^ 53)" by simp
  then have "j < 2 ^ 53" by (simp only: of_int_less_iff)
  then have "j + 1 \<le> 2 ^ 53" by simp
  then have "(of_int (j + 1) :: real) \<le> of_int (2 ^ 53)" by (simp only: of_int_le_iff)
  then have j1: "(of_int j :: real) + 1 \<le> 2 ^ 53" by simp
  have "round_double ?x = of_int (nearest_even (?x * of_int (2 ^ nat (52 - 52)))) * 2 powi (52 - 52)"
  proof (rule round_double_grid)
    show "2 powi 52 \<le> ?x" using lo by simp
    show "?x < 2 powi (52 + 1)" using j1 by simp
  qed simp_all
  then have "round_double ?x = of_int (nearest_even ?x)" by simp
  then have rd: "round_double ?x = of_int j + 1"
    using assms(3) by (simp add: nearest_even_half)
  have "(0::real) \<le> of_int j" using assms(1) by simp
  moreover have "(2::real) ^ 53 < 2 ^ 64" by simp
  with j1 have "(of_int j :: real) + 1 < 2 ^ 64" by linarith
  moreover have "\<lfloor>(of_int j :: real) + 1\<rfloor> = j + 1"
    by (intro floor_unique) simp_all
  ultimately show "delay_millis (of_int j) = Inr (word_of_int (j + 1) * 1000)"
    using rd by (simp add: delay_millis_def)
qed

lemma is_double_examples:
  "is_double (1 / 2)" "is_double (5 / 2)" "is_double (1 / 2 - 1 / 2 ^ 54)"
proof -
  show "is_double (1 / 2)"
    by (rule is_double_on_grid [where K = "- 1" and j = "2 ^ 52"]) simp_all
  show "is_double (5 / 2)"
    by (rule is_double_on_grid [where K = 1 and j = "5 * 2 ^ 50"]) simp_all
  show "is_double (1 / 2 - 1 / 2 ^ 54)"
    by (rule is_double_on_grid [where K = "- 2" and j = "2 ^ 53 - 1"]) simp_all
qed

lemma round_half_up_floor: "round_half_up d = \<lfloor>d + 1 / 2\<rfloor>"
proof (cases "frac d < 1 / 2")
  case True
  have "\<lfloor>d + 1 / 2\<rfloor> = \<lfloor>d\<rfloor>"
  proof (rule floor_unique)
    have "of_int \<lfloor>d\<rfloor> \<le> d" by simp
    then show "of_int \<lfloor>d\<rfloor> \<le> d + 1 / 2" by linarith
    from True show "d + 1 / 2 < of_int \<lfloor>d\<rfloor> + 1"
      by (simp add: frac_def)
  qed
  with True show ?thesis by (simp add: round_half_up_def)
next
  case False
  have "\<lfloor>d + 1 / 2\<rfloor> = \<lfloor>d\<rfloor> + 1"
  proof (rule floor_unique)
    from False show "of_int (\<lfloor>d\<rfloor> + 1) \<le> d + 1 / 2"
      by (simp add: frac_def)
    have "d < of_int \<lfloor>d\<rfloor> + 1" by linarith
    then show "d + 1 / 2 < of_int (\<lfloor>d\<rfloor> + 1) + 1" by simp linarith
  qed
  with False show ?thesis by (simp add: round_half_up_def)
qed

lemma round_half_up_nonneg: "- 1 / 2 \<le> d \<Longrightarrow> 0 \<le> round_half_up d"
  by (simp add: round_half_up_floor)

lemma unat_delay_word:
  assumes "- 1 / 2 \<le> d"
  shows "unat (word_of_int (round_half_up d) * 1000 :: 64 word)
           = (nat (round_half_up d) * 1000) mod 2 ^ 64"
proof -
  from assms have "0 \<le> round_half_up d" by (rule round_half_up_nonneg)
  then have "(word_of_int (round_half_up d) :: 64 word) = of_nat (nat (round_half_up d))"
    by simp
  then have "(word_of_int (round_half_up d) * 1000 :: 64 word)
               = of_nat (nat (round_half_up d) * 1000)"
    by simp
  then show ?thesis
    by (simp only: unat_of_nat) simp
qed

lemma delay_millis_regular:
  assumes "regular_delay d"
  shows "delay_millis d = Inr (word_of_int (round_half_up d) * 1000)"
proof -
  from assms have dbl: "is_double d" and lo: "0 \<le> d" and hi: "d + 1 / 2 < 2 ^ 64"
    and ne: "d \<noteq> 1 / 2 - 1 / 2 ^ 54"
    and od: "\<not> (2 ^ 52 \<le> d \<and> d < 2 ^ 53 \<and> odd \<lfloor>d\<rfloor>)"
    by (simp_all add: regular_delay_def)
  have "delay_millis d = Inr (word_of_int \<lfloor>d + 1 / 2\<rfloor> * 1000)"
  proof (cases "d < 1 / 2")
    case True
    have "\<lfloor>d + 1 / 2\<rfloor> = 0"
      using lo True by (intro floor_unique) simp_all
    with delay_millis_half_up_small [OF dbl lo True ne] show ?thesis by simp
  next
    case False
    then have half: "1 / 2 \<le> d" by simp
    show ?thesis
    proof (cases "d < 2 ^ 52")
      case True
      with dbl half show ?thesis by (rule delay_millis_half_up_mid)
    next
      case False
      then have big: "2 ^ 52 \<le> d" by simp
      with od have "even \<lfloor>d\<rfloor>" if "d < 2 ^ 53" using that by blast
      with dbl big hi show ?thesis by (rule delay_millis_half_up_large)
    qed
  qed
  then show ?thesis by (simp only: round_half_up_floor)
qed

lemma delay_ok_projr: "delay_ok d \<Longrightarrow> delay_millis d = Inr (projr (delay_millis d))"
  by (cases "delay_millis d") (simp_all add: delay_ok_def)

lemma round_double_nonneg:
  assumes "0 \<le> x"
  shows "0 \<le> round_double x"
proof (cases "x = 0")
  case True
  then show ?thesis by (simp add: round_double_def)
next
  case False
  define p :: real where "p = 2 powi ulp_exponent x"
  have p: "0 < p" by (simp add: p_def)
  with assms have "of_int 0 \<le> x / p" by simp
  then have "0 \<le> nearest_even (x / p)" by (rule nearest_even_ge)
  then have "(0::real) \<le> of_int (nearest_even (x / p))" by simp
  with p have "0 \<le> of_int (nearest_even (x / p)) * p" by simp
  with False show ?thesis by (simp add: round_double_def p_def)
qed

lemma round_double_le_power:
  assumes "0 < x" and "x < 2 powi M" and "- 1074 \<le> M"
  shows "round_double x \<le> 2 powi M"
proof -
  define e where "e = ulp_exponent x"
  define p :: real where "p = 2 powi e"
  define N :: int where "N = 2 ^ nat (M - e)"
  have p: "0 < p" by (simp add: p_def)
  have "\<not> M \<le> ilog2 x"
  proof
    assume "M \<le> ilog2 x"
    then have "(2::real) powi M \<le> 2 powi ilog2 x"
      by (rule power_int_increasing) simp
    with ilog2_bounds(1) [OF assms(1)] assms(2) show False by linarith
  qed
  with assms(1,3) have Me: "e \<le> M" by (simp add: e_def ulp_exponent_def)
  then have "of_int N = (2::real) powi (M - e)"
    by (simp add: N_def power_int_def)
  moreover have "(2::real) powi (M - e) * p = 2 powi M"
    using power_int_add [of "2::real" "M - e" e] by (simp add: p_def)
  ultimately have Np: "of_int N * p = 2 powi M" by simp
  from assms(2) have "x < of_int N * p" by (simp only: Np)
  then have "x / p < of_int N" using p by (simp add: field_simps)
  then have "x / p < of_int N + 1 / 2" by simp
  then have "nearest_even (x / p) \<le> N" by (rule nearest_even_le)
  then have "(of_int (nearest_even (x / p)) :: real) \<le> of_int N" by (simp only: of_int_le_iff)
  then have "of_int (nearest_even (x / p)) * p \<le> of_int N * p"
    using p by (simp only: mult_right_mono less_imp_le)
  then show ?thesis
    using assms(1) by (simp add: round_double_def Np flip: p_def e_def)
qed

lemma delay_ok_range:
  assumes "is_double d" and "- 1 / 2 \<le> d" and "d + 1 / 2 < 2 ^ 64"
  shows "delay_ok d"
proof (cases "2 ^ 53 \<le> d")
  case True
  then have "2 ^ 52 \<le> d" by simp
  from delay_millis_half_up_large [OF assms(1) this assms(3)] True show ?thesis
    by (simp add: delay_ok_def)
next
  case False
  let ?x = "d + 1 / 2"
  from assms(2) have x0: "0 \<le> ?x" by simp
  then have lo: "0 \<le> round_double ?x" by (rule round_double_nonneg)
  have "round_double ?x \<le> 2 powi 54"
  proof (cases "?x = 0")
    case True
    then show ?thesis by (simp add: round_double_def)
  next
    case nz: False
    with x0 have "0 < ?x" by simp
    moreover from False have "?x < 2 powi 54" by simp
    ultimately show ?thesis by (rule round_double_le_power) simp
  qed
  then have "round_double ?x < 2 ^ 64" by simp
  with lo show ?thesis by (simp add: delay_ok_def delay_millis_def)
qed

section \<open>Properties of the foreground flush\<close>

lemma TaskQueueT_same: "task_queue q = xs \<Longrightarrow> q\<lparr>task_queue := xs\<rparr> = q"
  by simp

lemma flush_delayed_closed:
  assumes "\<forall>d \<in> set (task_queue (foreground_delayed_tasks r)).
             delay_millis (timeout d) = Inr (ms (timeout d))"
  shows "flush_delayed b r =
     Inr (b \<or> task_queue (foreground_delayed_tasks r) \<noteq> [],
          r\<lparr>foreground_delayed_tasks := (foreground_delayed_tasks r)\<lparr>task_queue := []\<rparr>,
            scheduled_delayed_tasks :=
              scheduled_delayed_tasks r @ map (armed ms) (task_queue (foreground_delayed_tasks r))\<rparr>)"
  using assms
proof (induction ds \<equiv> "task_queue (foreground_delayed_tasks r)" arbitrary: r b)
  case Nil
  then show ?case
    by (subst flush_delayed.simps) (simp add: PopT_def TaskQueueT_same)
next
  case (Cons d ds)
  let ?r1 = "r\<lparr>foreground_delayed_tasks := (foreground_delayed_tasks r)\<lparr>task_queue := ds\<rparr>,
                scheduled_delayed_tasks := scheduled_delayed_tasks r @ [armed ms d]\<rparr>"
  from Cons.hyps(2) Cons.prems have ok: "delay_millis (timeout d) = Inr (ms (timeout d))"
    by (metis list.set_intros(1))
  have step: "flush_delayed b r = flush_delayed True ?r1"
    using Cons.hyps(2) [symmetric] ok
    by (subst flush_delayed.simps) (simp add: PopT_def armed_def)
  have "ds = task_queue (foreground_delayed_tasks ?r1)" by simp
  moreover have "\<forall>d \<in> set (task_queue (foreground_delayed_tasks ?r1)).
                   delay_millis (timeout d) = Inr (ms (timeout d))"
    using Cons.hyps(2) [symmetric] Cons.prems by simp
  ultimately have "flush_delayed True ?r1 =
     Inr (True \<or> task_queue (foreground_delayed_tasks ?r1) \<noteq> [],
          ?r1\<lparr>foreground_delayed_tasks := (foreground_delayed_tasks ?r1)\<lparr>task_queue := []\<rparr>,
            scheduled_delayed_tasks :=
              scheduled_delayed_tasks ?r1 @ map (armed ms) (task_queue (foreground_delayed_tasks ?r1))\<rparr>)"
    by (rule Cons.hyps(1))
  with step Cons.hyps(2) [symmetric] show ?case by simp
qed

lemma do_posts_closed:
  assumes "flush_tasks r = Some n"
  shows "\<exists>r'. do_posts ps r = Inr r'
     \<and> task_queue (foreground_tasks r') = task_queue (foreground_tasks r) @ posted_tasks ps
     \<and> task_queue (foreground_delayed_tasks r')
         = task_queue (foreground_delayed_tasks r) @ posted_delayed ps
     \<and> flush_tasks r' = Some (n + length ps)
     \<and> executed r' = executed r
     \<and> scheduled_delayed_tasks r' = scheduled_delayed_tasks r
     \<and> loop r' = loop r \<and> ref_count r' = ref_count r"
  using assms
proof (induction ps r arbitrary: n rule: do_posts.induct)
  case (1 r)
  then show ?case by simp
next
  case (2 t ps r)
  let ?r1 = "r\<lparr>foreground_tasks := PushT t (foreground_tasks r), flush_tasks := Some (n + 1)\<rparr>"
  have p: "PostTask t r = Inr ?r1" using 2(2) by (simp add: PostTask_def)
  have "flush_tasks ?r1 = Some (n + 1)" by simp
  from 2(1) [OF p this] p show ?case
    by (auto simp: PushT_def)
next
  case (3 t d ps r)
  let ?r1 = "r\<lparr>foreground_delayed_tasks :=
                    PushT \<lparr>task = t, timeout = d, timer = None\<rparr> (foreground_delayed_tasks r),
                 flush_tasks := Some (n + 1)\<rparr>"
  have p: "PostDelayedTask t d r = Inr ?r1" using 3(2) by (simp add: PostDelayedTask_def)
  have "flush_tasks ?r1 = Some (n + 1)" by simp
  from 3(1) [OF p this] p show ?case
    by (auto simp: PushT_def)
qed

lemma run_tasks_closed:
  assumes "flush_tasks r = Some n"
  shows "\<exists>r' m. run_tasks ts b r = Inr (b \<or> ts \<noteq> [], r')
     \<and> executed r' = executed r @ ts
     \<and> task_queue (foreground_tasks r')
         = task_queue (foreground_tasks r) @ concat (map (\<lambda>t. posted_tasks (posts t)) ts)
     \<and> task_queue (foreground_delayed_tasks r')
         = task_queue (foreground_delayed_tasks r) @ concat (map (\<lambda>t. posted_delayed (posts t)) ts)
     \<and> flush_tasks r' = Some m
     \<and> scheduled_delayed_tasks r' = scheduled_delayed_tasks r
     \<and> loop r' = loop r \<and> ref_count r' = ref_count r"
  using assms
proof (induction ts arbitrary: r b n)
  case Nil
  then show ?case by simp
next
  case (Cons t ts)
  let ?r0 = "r\<lparr>executed := executed r @ [t]\<rparr>"
  have "flush_tasks ?r0 = Some n" using Cons.prems by simp
  from do_posts_closed [OF this, of "posts t"] obtain r1 where
    r1: "do_posts (posts t) ?r0 = Inr r1"
      "task_queue (foreground_tasks r1) = task_queue (foreground_tasks r) @ posted_tasks (posts t)"
      "task_queue (foreground_delayed_tasks r1)
         = task_queue (foreground_delayed_tasks r) @ posted_delayed (posts t)"
      "flush_tasks r1 = Some (n + length (posts t))"
      "executed r1 = executed r @ [t]"
      "scheduled_delayed_tasks r1 = scheduled_delayed_tasks r"
      "loop r1 = loop r" "ref_count r1 = ref_count r"
    by auto
  from Cons.IH [OF r1(4), of True] obtain r' m where
    r': "run_tasks ts True r1 = Inr (True \<or> ts \<noteq> [], r')"
      "executed r' = executed r1 @ ts"
      "task_queue (foreground_tasks r')
         = task_queue (foreground_tasks r1) @ concat (map (\<lambda>t. posted_tasks (posts t)) ts)"
      "task_queue (foreground_delayed_tasks r')
         = task_queue (foreground_delayed_tasks r1) @ concat (map (\<lambda>t. posted_delayed (posts t)) ts)"
      "flush_tasks r' = Some m"
      "scheduled_delayed_tasks r' = scheduled_delayed_tasks r1"
      "loop r' = loop r1" "ref_count r' = ref_count r1"
    by blast
  have "run_tasks (t # ts) b r = Inr (True, r')"
    using r1(1) r'(1) by (simp add: RunForegroundTask_def)
  with r1 r' show ?case by simp
qed

lemma Flush_closed:
  assumes "flush_tasks r = Some n"
    and "\<forall>d \<in> set (task_queue (foreground_delayed_tasks r)).
           delay_millis (timeout d) = Inr (ms (timeout d))"
  shows "\<exists>r' m. FlushForegroundTasksInternal r =
         Inr (task_queue (foreground_delayed_tasks r) \<noteq> [] \<or> task_queue (foreground_tasks r) \<noteq> [], r')
     \<and> executed r' = executed r @ task_queue (foreground_tasks r)
     \<and> task_queue (foreground_tasks r')
         = concat (map (\<lambda>t. posted_tasks (posts t)) (task_queue (foreground_tasks r)))
     \<and> task_queue (foreground_delayed_tasks r')
         = concat (map (\<lambda>t. posted_delayed (posts t)) (task_queue (foreground_tasks r)))
     \<and> scheduled_delayed_tasks r'
         = scheduled_delayed_tasks r @ map (armed ms) (task_queue (foreground_delayed_tasks r))
     \<and> flush_tasks r' = Some m
     \<and> loop r' = loop r \<and> ref_count r' = ref_count r"
proof -
  let ?ds = "task_queue (foreground_delayed_tasks r)"
  let ?ts = "task_queue (foreground_tasks r)"
  let ?r1 = "r\<lparr>foreground_delayed_tasks := (foreground_delayed_tasks r)\<lparr>task_queue := []\<rparr>,
            scheduled_delayed_tasks := scheduled_delayed_tasks r @ map (armed ms) ?ds\<rparr>"
  let ?r2 = "?r1\<lparr>foreground_tasks := (foreground_tasks r)\<lparr>task_queue := []\<rparr>\<rparr>"
  have fd: "flush_delayed False r = Inr (?ds \<noteq> [], ?r1)"
    using flush_delayed_closed [OF assms(2), of False] by simp
  have "flush_tasks ?r2 = Some n" using assms(1) by simp
  from run_tasks_closed [OF this, of ?ts "?ds \<noteq> []"] obtain r' m where
    r': "run_tasks ?ts (?ds \<noteq> []) ?r2 = Inr (?ds \<noteq> [] \<or> ?ts \<noteq> [], r')"
      "executed r' = executed ?r2 @ ?ts"
      "task_queue (foreground_tasks r')
         = task_queue (foreground_tasks ?r2) @ concat (map (\<lambda>t. posted_tasks (posts t)) ?ts)"
      "task_queue (foreground_delayed_tasks r')
         = task_queue (foreground_delayed_tasks ?r2) @ concat (map (\<lambda>t. posted_delayed (posts t)) ?ts)"
      "flush_tasks r' = Some m"
      "scheduled_delayed_tasks r' = scheduled_delayed_tasks ?r2"
      "loop r' = loop ?r2" "ref_count r' = ref_count ?r2"
    by blast
  have "FlushForegroundTasksInternal r = Inr (?ds \<noteq> [] \<or> ?ts \<noteq> [], r')"
    using fd r'(1) by (simp add: FlushForegroundTasksInternal_def PopAll_def)
  with r' show ?thesis by simp
qed



section \<open>Properties of registration\<close>

lemma RegisterIsolate_new:
  "per_isolate p i = None \<Longrightarrow>
   RegisterIsolate i l p = Inr (p\<lparr>per_isolate := (per_isolate p)(i \<mapsto> PerIsolatePlatformData_ctor i l)\<rparr>)"
  by (simp add: RegisterIsolate_def)

lemma RegisterIsolate_again:
  "per_isolate p i = Some r \<Longrightarrow> loop r = l \<Longrightarrow>
   RegisterIsolate i l p =
     Inr (p\<lparr>per_isolate := (per_isolate p)(i \<mapsto> r\<lparr>ref_count := ref_count r + 1\<rparr>)\<rparr>)"
  by (simp add: RegisterIsolate_def ref_def)

lemma UnregisterIsolate_keep:
  "per_isolate p i = Some r \<Longrightarrow> ref_count r \<noteq> 1 \<Longrightarrow>
   UnregisterIsolate i p =
     Some (Inr (p\<lparr>per_isolate := (per_isolate p)(i \<mapsto> r\<lparr>ref_count := ref_count r - 1\<rparr>)\<rparr>))"
  by (simp add: UnregisterIsolate_def unref_def)

lemma UnregisterIsolate_last:
  "per_isolate p i = Some r \<Longrightarrow> ref_count r = 1 \<Longrightarrow>
   Shutdown (r\<lparr>ref_count := 0\<rparr>) = Some (Inr gone) \<Longrightarrow>
   UnregisterIsolate i p = Some (Inr (p\<lparr>per_isolate := (per_isolate p)(i := None)\<rparr>))"
  by (simp add: UnregisterIsolate_def unref_def)

lemma Shutdown_closes:
  "Shutdown r = Some (Inr gone) \<Longrightarrow> flush_tasks gone = None"
  by (auto simp: Shutdown_def split: option.splits sum.splits)

lemma Shutdown_idle:
  assumes "flush_tasks r = Some n"
    and "task_queue (foreground_tasks r) = []"
    and "task_queue (foreground_delayed_tasks r) = []"
  shows "\<exists>gone. Shutdown r = Some (Inr gone)"
proof -
  have "\<forall>d \<in> set (task_queue (foreground_delayed_tasks r)).
          delay_millis (timeout d) = Inr ((\<lambda>t. 0) (timeout d))"
    using assms(3) by simp
  from Flush_closed [OF assms(1) this] assms(2,3) obtain r' where
    "FlushForegroundTasksInternal r = Inr (False, r')"
    by auto
  then have "flush_until_idle r = Some (Inr r')"
    by (subst flush_until_idle.simps) simp
  with assms(1) show ?thesis by (simp add: Shutdown_def)
qed

text \<open>
  Claim C8. Starting from a platform in which the isolate is not registered: registering
  it twice with the same loop and unregistering it once succeeds and leaves its runner in
  the map, with its async handle open and the reference count at 1; one more
  unregistration shuts the runner down and erases it. In general an unregistration that
  leaves the count different from zero keeps the runner in the map, changed in nothing
  but the count, and one that brings the count to zero calls \<open>Shutdown\<close>, which closes
  the runner's handle, and erases the runner from the map.
\<close>

theorem C8_register_twice_unregister_once:
  "(per_isolate p i = None \<longrightarrow>
      (\<exists>p1 p2 p3 r.
         RegisterIsolate i l p = Inr p1
       \<and> RegisterIsolate i l p1 = Inr p2
       \<and> UnregisterIsolate i p2 = Some (Inr p3)
       \<and> per_isolate p3 i = Some r
       \<and> flush_tasks r \<noteq> None \<and> ref_count r = 1 \<and> loop r = l
       \<and> UnregisterIsolate i p3 = Some (Inr p)))
   \<and> (per_isolate q i = Some e \<and> ref_count e - 1 \<noteq> 0 \<longrightarrow>
        UnregisterIsolate i q =
          Some (Inr (q\<lparr>per_isolate := (per_isolate q)(i \<mapsto> e\<lparr>ref_count := ref_count e - 1\<rparr>)\<rparr>)))
   \<and> (per_isolate q i = Some e \<and> ref_count e - 1 = 0
        \<and> Shutdown (e\<lparr>ref_count := 0\<rparr>) = Some (Inr gone) \<longrightarrow>
        flush_tasks gone = None
        \<and> UnregisterIsolate i q = Some (Inr (q\<lparr>per_isolate := (per_isolate q)(i := None)\<rparr>)))"
proof (intro conjI impI)
  assume absent: "per_isolate p i = None"
  let ?c = "PerIsolatePlatformData_ctor i l"
  let ?p1 = "p\<lparr>per_isolate := (per_isolate p)(i \<mapsto> ?c)\<rparr>"
  let ?p2 = "p\<lparr>per_isolate := (per_isolate p)(i \<mapsto> ?c\<lparr>ref_count := 2\<rparr>)\<rparr>"
  let ?p3 = "p\<lparr>per_isolate := (per_isolate p)(i \<mapsto> ?c)\<rparr>"
  have c: "ref_count ?c = 1" "loop ?c = l" "flush_tasks ?c = Some 0"
    "task_queue (foreground_tasks ?c) = []" "task_queue (foreground_delayed_tasks ?c) = []"
    by (simp_all add: PerIsolatePlatformData_ctor_def ref_count_init_def TaskQueueT_ctor_def)
  have same: "?c\<lparr>ref_count := 1\<rparr> = ?c" using c(1) by simp
  have r1: "RegisterIsolate i l p = Inr ?p1"
    using absent by (rule RegisterIsolate_new)
  have r2: "RegisterIsolate i l ?p1 = Inr ?p2"
    using RegisterIsolate_again [of ?p1 i ?c l] c by simp
  have u1: "UnregisterIsolate i ?p2 = Some (Inr ?p3)"
    using UnregisterIsolate_keep [of ?p2 i "?c\<lparr>ref_count := 2\<rparr>"] same by simp
  from Shutdown_idle [of "?c\<lparr>ref_count := 0\<rparr>" 0] c obtain gone where
    "Shutdown (?c\<lparr>ref_count := 0\<rparr>) = Some (Inr gone)" by auto
  with UnregisterIsolate_last [of ?p3 i ?c gone] c(1)
  have "UnregisterIsolate i ?p3 = Some (Inr (?p3\<lparr>per_isolate := (per_isolate ?p3)(i := None)\<rparr>))"
    by simp
  moreover have "?p3\<lparr>per_isolate := (per_isolate ?p3)(i := None)\<rparr> = p"
  proof -
    have "(per_isolate p)(i := None) = per_isolate p"
      using absent by (simp add: fun_upd_idem)
    then show ?thesis by simp
  qed
  ultimately have u2: "UnregisterIsolate i ?p3 = Some (Inr p)" by simp
  from r1 r2 u1 u2 c show "\<exists>p1 p2 p3 r.
         RegisterIsolate i l p = Inr p1
       \<and> RegisterIsolate i l p1 = Inr p2
       \<and> UnregisterIsolate i p2 = Some (Inr p3)
       \<and> per_isolate p3 i = Some r
       \<and> flush_tasks r \<noteq> None \<and> ref_count r = 1 \<and> loop r = l
       \<and> UnregisterIsolate i p3 = Some (Inr p)"
    by (intro exI [of _ ?p1] exI [of _ ?p2] exI [of _ ?p3] exI [of _ ?c]) simp
next
  assume "per_isolate q i = Some e \<and> ref_count e - 1 \<noteq> 0"
  then show "UnregisterIsolate i q =
          Some (Inr (q\<lparr>per_isolate := (per_isolate q)(i \<mapsto> e\<lparr>ref_count := ref_count e - 1\<rparr>)\<rparr>))"
    using UnregisterIsolate_keep [of q i e] by simp
next
  assume a: "per_isolate q i = Some e \<and> ref_count e - 1 = 0
        \<and> Shutdown (e\<lparr>ref_count := 0\<rparr>) = Some (Inr gone)"
  then show "flush_tasks gone = None"
    using Shutdown_closes by blast
  from a show "UnregisterIsolate i q = Some (Inr (q\<lparr>per_isolate := (per_isolate q)(i := None)\<rparr>))"
    using UnregisterIsolate_last [of q i e gone] by simp
qed

lemma Shutdown_fresh:
  "Shutdown ((PerIsolatePlatformData_ctor 7 5)\<lparr>ref_count := 0\<rparr>)
     = Some (Inr ((PerIsolatePlatformData_ctor 7 5)\<lparr>ref_count := 0, flush_tasks := None\<rparr>))"
proof -
  let ?r = "(PerIsolatePlatformData_ctor 7 5)\<lparr>ref_count := 0\<rparr>"
  have "FlushForegroundTasksInternal ?r = Inr (False, ?r)"
    by (simp add: FlushForegroundTasksInternal_def PerIsolatePlatformData_ctor_def
        TaskQueueT_ctor_def PopT_def PopAll_def)
  then have "flush_until_idle ?r = Some (Inr ?r)"
    by (subst flush_until_idle.simps) simp
  then show ?thesis
    by (simp add: Shutdown_def PerIsolatePlatformData_ctor_def CancelPendingDelayedTasks_def)
qed

theorem C8_register_twice_unregister_once_witness:
  "per_isolate \<lparr>per_isolate = Map.empty\<rparr> 7 = None
   \<and> (\<exists>p1 p2 p3 r.
         RegisterIsolate 7 5 \<lparr>per_isolate = Map.empty\<rparr> = Inr p1
       \<and> RegisterIsolate 7 5 p1 = Inr p2
       \<and> UnregisterIsolate 7 p2 = Some (Inr p3)
       \<and> per_isolate p3 7 = Some r
       \<and> flush_tasks r \<noteq> None \<and> ref_count r = 1 \<and> loop r = 5
       \<and> UnregisterIsolate 7 p3 = Some (Inr \<lparr>per_isolate = Map.empty\<rparr>))
   \<and> UnregisterIsolate 7 \<lparr>per_isolate = [7 \<mapsto> (PerIsolatePlatformData_ctor 7 5)\<lparr>ref_count := 2\<rparr>]\<rparr>
       = Some (Inr \<lparr>per_isolate = [7 \<mapsto> (PerIsolatePlatformData_ctor 7 5)\<lparr>ref_count := 1\<rparr>]\<rparr>)
   \<and> Shutdown ((PerIsolatePlatformData_ctor 7 5)\<lparr>ref_count := 0\<rparr>)
       = Some (Inr ((PerIsolatePlatformData_ctor 7 5)\<lparr>ref_count := 0, flush_tasks := None\<rparr>))
   \<and> UnregisterIsolate 7 \<lparr>per_isolate = [7 \<mapsto> PerIsolatePlatformData_ctor 7 5]\<rparr>
       = Some (Inr \<lparr>per_isolate = Map.empty\<rparr>)"
proof -
  let ?p = "\<lparr>per_isolate = Map.empty\<rparr>"
  let ?c = "PerIsolatePlatformData_ctor 7 5"
  let ?e = "?c\<lparr>ref_count := 2\<rparr>"
  let ?q = "\<lparr>per_isolate = [7 \<mapsto> ?e]\<rparr>"
  let ?q1 = "\<lparr>per_isolate = [7 \<mapsto> ?c]\<rparr>"
  let ?gone = "?c\<lparr>ref_count := 0, flush_tasks := None\<rparr>"
  note C = C8_register_twice_unregister_once [of ?p 7 5 ?q ?e ?gone]
  note D = C8_register_twice_unregister_once [of ?p 7 5 ?q1 ?c ?gone]
  have absent: "per_isolate ?p 7 = None" by simp
  have present: "per_isolate ?q 7 = Some ?e \<and> ref_count ?e - 1 \<noteq> 0" by simp
  have last: "per_isolate ?q1 7 = Some ?c \<and> ref_count ?c - 1 = 0
        \<and> Shutdown (?c\<lparr>ref_count := 0\<rparr>) = Some (Inr ?gone)"
    using Shutdown_fresh by (simp add: PerIsolatePlatformData_ctor_def ref_count_init_def)
  from C [THEN conjunct1, THEN mp, OF absent]
  have a: "\<exists>p1 p2 p3 r.
         RegisterIsolate 7 5 ?p = Inr p1
       \<and> RegisterIsolate 7 5 p1 = Inr p2
       \<and> UnregisterIsolate 7 p2 = Some (Inr p3)
       \<and> per_isolate p3 7 = Some r
       \<and> flush_tasks r \<noteq> None \<and> ref_count r = 1 \<and> loop r = 5
       \<and> UnregisterIsolate 7 p3 = Some (Inr ?p)" .
  from C [THEN conjunct2, THEN conjunct1, THEN mp, OF present]
  have b: "UnregisterIsolate 7 ?q
       = Some (Inr \<lparr>per_isolate = [7 \<mapsto> ?c\<lparr>ref_count := 1\<rparr>]\<rparr>)"
    by simp
  from D [THEN conjunct2, THEN conjunct2, THEN mp, OF last]
  have c: "UnregisterIsolate 7 ?q1 = Some (Inr ?p)"
    by simp
  from absent a b c Shutdown_fresh show ?thesis by blast
qed


section \<open>The timeout of the timers of delayed tasks\<close>

text \<open>
  Claim C6, as the code has it. The flush starts a one-shot timer (repeat 0) for each
  queued foreground delayed task, with the timeout that the delay computation gives for
  the task's delay. For a delay \<open>d\<close> that is a \<^verbatim>\<open>double\<close> from 0 up to the largest
  one below \<open>2\<^sup>6\<^sup>4\<close>, that timeout is the delay rounded half up to whole seconds,
  which is \<open>\<lfloor>d + 1 / 2\<rfloor>\<close>, times 1000, in 64-bit unsigned arithmetic. The delays at
  which the sum \<^verbatim>\<open>delay + 0.5\<close> of two \<^verbatim>\<open>double\<close>s is rounded upwards to a whole
  number are excepted: at \<open>1 / 2 - 2\<^sup>-\<^sup>5\<^sup>4\<close>, the \<^verbatim>\<open>double\<close> next below 0.5, the
  timeout is 1000 ms, and at an odd whole number \<open>j\<close> from \<open>2\<^sup>5\<^sup>2\<close> to \<open>2\<^sup>5\<^sup>3\<close>
  it is \<open>(j + 1) * 1000\<close> ms.
\<close>

theorem C6_delay_round_half_up:
  "(regular_delay d \<longrightarrow>
      delay_millis d = Inr (word_of_int (round_half_up d) * 1000)
    \<and> round_half_up d = \<lfloor>d + 1 / 2\<rfloor>
    \<and> unat (word_of_int (round_half_up d) * 1000 :: 64 word)
        = (nat (round_half_up d) * 1000) mod 2 ^ 64)
   \<and> (flush_tasks r \<noteq> None
       \<and> (\<forall>x \<in> set (task_queue (foreground_delayed_tasks r)). delay_ok (timeout x)) \<longrightarrow>
        (\<exists>did r' ms. FlushForegroundTasksInternal r = Inr (did, r')
           \<and> scheduled_delayed_tasks r' = scheduled_delayed_tasks r @
               map (\<lambda>x. x\<lparr>timer := Some \<lparr>timeout_ms = ms (timeout x), repeat_ms = 0\<rparr>\<rparr>)
                   (task_queue (foreground_delayed_tasks r))
           \<and> (\<forall>x \<in> set (task_queue (foreground_delayed_tasks r)).
                 delay_millis (timeout x) = Inr (ms (timeout x)))
           \<and> (\<forall>x \<in> set (task_queue (foreground_delayed_tasks r)).
                 regular_delay (timeout x) \<longrightarrow>
                 ms (timeout x) = word_of_int (round_half_up (timeout x)) * 1000)))
   \<and> is_double (1 / 2 - 1 / 2 ^ 54)
   \<and> round_half_up (1 / 2 - 1 / 2 ^ 54) = 0
   \<and> delay_millis (1 / 2 - 1 / 2 ^ 54) = Inr 1000
   \<and> (2 ^ 52 \<le> (of_int j :: real) \<and> (of_int j :: real) < 2 ^ 53 \<and> odd j \<longrightarrow>
        is_double (of_int j)
      \<and> round_half_up (of_int j) = j
      \<and> delay_millis (of_int j) = Inr (word_of_int (j + 1) * 1000))"
proof (intro conjI impI)
  assume ok: "regular_delay d"
  show "delay_millis d = Inr (word_of_int (round_half_up d) * 1000)"
    using ok by (rule delay_millis_regular)
  show "round_half_up d = \<lfloor>d + 1 / 2\<rfloor>"
    by (rule round_half_up_floor)
  show "unat (word_of_int (round_half_up d) * 1000 :: 64 word)
        = (nat (round_half_up d) * 1000) mod 2 ^ 64"
    using ok by (intro unat_delay_word) (simp add: regular_delay_def)
next
  let ?ds = "task_queue (foreground_delayed_tasks r)"
  let ?ms = "\<lambda>t. projr (delay_millis t)"
  assume a: "flush_tasks r \<noteq> None \<and> (\<forall>x \<in> set ?ds. delay_ok (timeout x))"
  then obtain n where n: "flush_tasks r = Some n" by blast
  from a have conv: "\<forall>x \<in> set ?ds. delay_millis (timeout x) = Inr (?ms (timeout x))"
    by (blast intro: delay_ok_projr)
  from Flush_closed [OF n conv] obtain did r' where
    f: "FlushForegroundTasksInternal r = Inr (did, r')"
      "scheduled_delayed_tasks r' = scheduled_delayed_tasks r @ map (armed ?ms) ?ds"
    by blast
  have "armed ?ms = (\<lambda>x. x\<lparr>timer := Some \<lparr>timeout_ms = ?ms (timeout x), repeat_ms = 0\<rparr>\<rparr>)"
    by (rule ext) (simp add: armed_def)
  with f(2) have sched: "scheduled_delayed_tasks r' = scheduled_delayed_tasks r @
      map (\<lambda>x. x\<lparr>timer := Some \<lparr>timeout_ms = ?ms (timeout x), repeat_ms = 0\<rparr>\<rparr>) ?ds"
    by simp
  have half_up: "\<forall>x \<in> set ?ds. regular_delay (timeout x) \<longrightarrow>
      ?ms (timeout x) = word_of_int (round_half_up (timeout x)) * 1000"
    by (simp add: delay_millis_regular)
  from f(1) sched conv half_up
  show "\<exists>did r' ms. FlushForegroundTasksInternal r = Inr (did, r')
           \<and> scheduled_delayed_tasks r' = scheduled_delayed_tasks r @
               map (\<lambda>x. x\<lparr>timer := Some \<lparr>timeout_ms = ms (timeout x), repeat_ms = 0\<rparr>\<rparr>) ?ds
           \<and> (\<forall>x \<in> set ?ds. delay_millis (timeout x) = Inr (ms (timeout x)))
           \<and> (\<forall>x \<in> set ?ds. regular_delay (timeout x) \<longrightarrow>
                 ms (timeout x) = word_of_int (round_half_up (timeout x)) * 1000)"
    by (intro exI [of _ did] exI [of _ r'] exI [of _ ?ms] conjI)
next
  show "is_double (1 / 2 - 1 / 2 ^ 54)" by (rule is_double_examples)
  show "round_half_up (1 / 2 - 1 / 2 ^ 54) = 0"
    unfolding round_half_up_floor by (intro floor_unique) simp_all
  show "delay_millis (1 / 2 - 1 / 2 ^ 54) = Inr 1000" by (rule delay_millis_below_half)
next
  assume "2 ^ 52 \<le> (of_int j :: real) \<and> (of_int j :: real) < 2 ^ 53 \<and> odd j"
  then have j: "2 ^ 52 \<le> (of_int j :: real)" "(of_int j :: real) < 2 ^ 53" "odd j" by blast+
  from j show "is_double (of_int j)" by (rule delay_millis_odd)
  show "round_half_up (of_int j) = j"
    unfolding round_half_up_floor by (intro floor_unique) simp_all
  from j show "delay_millis (of_int j) = Inr (word_of_int (j + 1) * 1000)" by (rule delay_millis_odd)
qed

theorem C6_delay_round_half_up_witness:
  "regular_delay (5 / 2)
   \<and> delay_millis (5 / 2) = Inr 3000
   \<and> delay_ok (1 / 2) \<and> regular_delay (1 / 2)
   \<and> delay_ok (1 / 2 - 1 / 2 ^ 54)
   \<and> (\<exists>did r'. FlushForegroundTasksInternal
          \<lparr>loop = 5, flush_tasks = Some 1, foreground_tasks = TaskQueueT_ctor,
           foreground_delayed_tasks =
             \<lparr>task_queue = [\<lparr>task = v8_Task 2 [], timeout = 1 / 2, timer = None\<rparr>,
                            \<lparr>task = v8_Task 3 [], timeout = 1 / 2 - 1 / 2 ^ 54, timer = None\<rparr>],
              t_outstanding_tasks = 2, t_stopped = False\<rparr>,
           scheduled_delayed_tasks = [], ref_count = 1, executed = []\<rparr> = Inr (did, r')
        \<and> scheduled_delayed_tasks r' =
            [\<lparr>task = v8_Task 2 [], timeout = 1 / 2,
              timer = Some \<lparr>timeout_ms = 1000, repeat_ms = 0\<rparr>\<rparr>,
             \<lparr>task = v8_Task 3 [], timeout = 1 / 2 - 1 / 2 ^ 54,
              timer = Some \<lparr>timeout_ms = 1000, repeat_ms = 0\<rparr>\<rparr>])
   \<and> 2 ^ 52 \<le> (of_int (2 ^ 52 + 1) :: real) \<and> (of_int (2 ^ 52 + 1) :: real) < 2 ^ 53
   \<and> odd (2 ^ 52 + 1 :: int)
   \<and> delay_millis (of_int (2 ^ 52 + 1)) = Inr 4503599627370498000"
proof -
  let ?q = "[\<lparr>task = v8_Task 2 [], timeout = 1 / 2, timer = None\<rparr>,
             \<lparr>task = v8_Task 3 [], timeout = 1 / 2 - 1 / 2 ^ 54, timer = None\<rparr>]"
  let ?r = "\<lparr>loop = 5, flush_tasks = Some 1, foreground_tasks = TaskQueueT_ctor,
           foreground_delayed_tasks =
             \<lparr>task_queue = ?q, t_outstanding_tasks = 2, t_stopped = False\<rparr>,
           scheduled_delayed_tasks = [], ref_count = 1, executed = []\<rparr>"
  note C = C6_delay_round_half_up [of "5 / 2" ?r "2 ^ 52 + 1"]
  have ok: "regular_delay (5 / 2)" and ok': "regular_delay (1 / 2)"
    by (simp_all add: regular_delay_def is_double_examples)
  have r3: "round_half_up (5 / 2) = 3" and r1: "round_half_up (1 / 2) = 1"
    by (simp_all add: round_half_up_def frac_def)
  have half: "delay_millis (1 / 2) = Inr 1000"
    by (rule delay_millis_1) simp_all
  have below: "delay_millis (1 / 2 - 1 / 2 ^ 54) = Inr 1000"
    using C by blast
  from half below have conv: "delay_ok (1 / 2)" "delay_ok (1 / 2 - 1 / 2 ^ 54)"
    by (simp_all add: delay_ok_def)
  have live: "flush_tasks ?r \<noteq> None
       \<and> (\<forall>x \<in> set (task_queue (foreground_delayed_tasks ?r)). delay_ok (timeout x))"
    using conv by simp
  have odd: "2 ^ 52 \<le> (of_int (2 ^ 52 + 1) :: real) \<and> (of_int (2 ^ 52 + 1) :: real) < 2 ^ 53
       \<and> odd (2 ^ 52 + 1 :: int)"
    by simp
  from C [THEN conjunct1, THEN mp, OF ok] r3
  have a: "delay_millis (5 / 2) = Inr 3000"
    by simp
  from C [THEN conjunct2, THEN conjunct1, THEN mp, OF live] obtain did r' ms where
    f: "FlushForegroundTasksInternal ?r = Inr (did, r')"
      "scheduled_delayed_tasks r' = scheduled_delayed_tasks ?r @
         map (\<lambda>x. x\<lparr>timer := Some \<lparr>timeout_ms = ms (timeout x), repeat_ms = 0\<rparr>\<rparr>)
             (task_queue (foreground_delayed_tasks ?r))"
      "\<forall>x \<in> set (task_queue (foreground_delayed_tasks ?r)).
         delay_millis (timeout x) = Inr (ms (timeout x))"
      "\<forall>x \<in> set (task_queue (foreground_delayed_tasks ?r)).
         regular_delay (timeout x) \<longrightarrow>
         ms (timeout x) = word_of_int (round_half_up (timeout x)) * 1000"
    by blast
  from f(4) ok' r1 have m1: "ms (1 / 2) = 1000" by simp
  from f(3) below have m2: "ms (1 / 2 - 1 / 2 ^ 54) = 1000" by simp
  from f(2) m1 m2 have "scheduled_delayed_tasks r' =
            [\<lparr>task = v8_Task 2 [], timeout = 1 / 2,
              timer = Some \<lparr>timeout_ms = 1000, repeat_ms = 0\<rparr>\<rparr>,
             \<lparr>task = v8_Task 3 [], timeout = 1 / 2 - 1 / 2 ^ 54,
              timer = Some \<lparr>timeout_ms = 1000, repeat_ms = 0\<rparr>\<rparr>]"
    by simp
  with f(1) have b: "\<exists>did r'. FlushForegroundTasksInternal ?r = Inr (did, r')
        \<and> scheduled_delayed_tasks r' =
            [\<lparr>task = v8_Task 2 [], timeout = 1 / 2,
              timer = Some \<lparr>timeout_ms = 1000, repeat_ms = 0\<rparr>\<rparr>,
             \<lparr>task = v8_Task 3 [], timeout = 1 / 2 - 1 / 2 ^ 54,
              timer = Some \<lparr>timeout_ms = 1000, repeat_ms = 0\<rparr>\<rparr>]"
    by blast
  from C [THEN conjunct2, THEN conjunct2, THEN conjunct2, THEN conjunct2, THEN conjunct2,
          THEN mp, OF odd]
  have c: "delay_millis (of_int (2 ^ 52 + 1)) = Inr 4503599627370498000"
    by simp
  from ok a conv(1) ok' conv(2) b odd c show ?thesis by blast
qed

text \<open>
  The claim as worded rounds half to even. A delay of 0.5 s (and likewise 2.5 s) lies
  half way between two whole numbers of seconds, the lower of which is even: half-even
  rounding gives 0 ms (2000 ms), the code sets the timer to 1000 ms (3000 ms). Both
  delays are \<^verbatim>\<open>double\<close>s, and so are their sums with 0.5.
\<close>

theorem C6_half_even_counterexample:
  "is_double (1 / 2)
   \<and> round_half_even (1 / 2) = 0
   \<and> delay_millis (1 / 2) = Inr 1000
   \<and> delay_millis (1 / 2) \<noteq> Inr (word_of_int (round_half_even (1 / 2)) * 1000)
   \<and> (\<exists>did r'. FlushForegroundTasksInternal
          \<lparr>loop = 5, flush_tasks = Some 1, foreground_tasks = TaskQueueT_ctor,
           foreground_delayed_tasks =
             \<lparr>task_queue = [\<lparr>task = v8_Task 2 [], timeout = 1 / 2, timer = None\<rparr>],
              t_outstanding_tasks = 1, t_stopped = False\<rparr>,
           scheduled_delayed_tasks = [], ref_count = 1, executed = []\<rparr> = Inr (did, r')
        \<and> scheduled_delayed_tasks r' =
            [\<lparr>task = v8_Task 2 [], timeout = 1 / 2,
              timer = Some \<lparr>timeout_ms = 1000, repeat_ms = 0\<rparr>\<rparr>])
   \<and> is_double (5 / 2)
   \<and> round_half_even (5 / 2) = 2
   \<and> delay_millis (5 / 2) = Inr 3000"
proof -
  let ?r = "\<lparr>loop = 5, flush_tasks = Some 1, foreground_tasks = TaskQueueT_ctor,
           foreground_delayed_tasks =
             \<lparr>task_queue = [\<lparr>task = v8_Task 2 [], timeout = 1 / 2, timer = None\<rparr>],
              t_outstanding_tasks = 1, t_stopped = False\<rparr>,
           scheduled_delayed_tasks = [], ref_count = 1, executed = []\<rparr>"
  have e: "round_half_even (1 / 2) = 0" "round_half_even (5 / 2) = 2"
    by (simp_all add: round_half_even_def frac_def)
  have a: "delay_millis (1 / 2) = Inr 1000"
    by (rule delay_millis_1) simp_all
  have "delay_millis (5 / 2) = Inr (word_of_int \<lfloor>5 / 2 + 1 / 2 :: real\<rfloor> * 1000)"
    by (rule delay_millis_half_up_mid) (simp_all add: is_double_examples)
  then have b: "delay_millis (5 / 2) = Inr 3000" by simp
  have "flush_tasks ?r = Some 1" by simp
  moreover have "\<forall>x \<in> set (task_queue (foreground_delayed_tasks ?r)).
      delay_millis (timeout x) = Inr ((\<lambda>t. 1000) (timeout x))"
    using a by simp
  ultimately obtain did r' where
    "FlushForegroundTasksInternal ?r = Inr (did, r')"
    "scheduled_delayed_tasks r'
       = scheduled_delayed_tasks ?r @ map (armed (\<lambda>t. 1000)) (task_queue (foreground_delayed_tasks ?r))"
    using Flush_closed [of ?r 1 "\<lambda>t. 1000"] by blast
  then have c: "\<exists>did r'. FlushForegroundTasksInternal ?r = Inr (did, r')
        \<and> scheduled_delayed_tasks r' =
            [\<lparr>task = v8_Task 2 [], timeout = 1 / 2,
              timer = Some \<lparr>timeout_ms = 1000, repeat_ms = 0\<rparr>\<rparr>]"
    by (simp add: armed_def)
  from a e have d: "delay_millis (1 / 2) \<noteq> Inr (word_of_int (round_half_even (1 / 2)) * 1000)"
    by simp
  from is_double_examples(1,2) e a b c d show ?thesis by blast
qed

section \<open>The workers return from a stopped queue\<close>

lemma exec_append:
  "exec (es @ es') w = (case exec es w of Inl e \<Rightarrow> Inl e | Inr w1 \<Rightarrow> exec es' w1)"
  by (induction es arbitrary: w) (auto split: sum.splits)

lemma Work_stopped_progress:
  assumes "pool_inv w" and "stopped (tp_queue w)" and "i < length (workers w)"
    and "step (Work i) w = Inr w'" and "0 < steps_to_return i w"
  shows "steps_to_return i w' + 1 = steps_to_return i w
     \<and> stopped (tp_queue w')
     \<and> (workers w')[i := Returned] = (workers w)[i := Returned]"
  using assms(1,3,4)
proof (cases rule: Work_cases)
  case blocked
  with assms(2) show ?thesis by simp
next
  case exit
  with assms(2,3) show ?thesis by (simp add: steps_to_return_def)
next
  case (pop t rest)
  with assms(2,3) show ?thesis by (simp add: steps_to_return_def)
next
  case (assign t h s)
  with assms(2,3) show ?thesis by (simp add: steps_to_return_def)
next
  case (run t)
  with assms(2,3) show ?thesis by (simp add: steps_to_return_def)
next
  case (skip t)
  with assms(2,3) show ?thesis by (simp add: steps_to_return_def)
next
  case (complete t h)
  with assms(2,3) show ?thesis by (simp add: steps_to_return_def)
next
  case (notify t h q')
  with assms(2,3) show ?thesis by (simp add: steps_to_return_def)
next
  case returned
  with assms(1,3) have "queue (tp_queue w) = []"
    by (auto simp: inv_defs)
  with returned assms(5) show ?thesis by (simp add: steps_to_return_def)
qed

lemma worker_returns:
  assumes "pool_inv w" and "stopped (tp_queue w)" and "i < length (workers w)"
    and "steps_to_return i w = m"
  shows "\<exists>w'. exec (replicate m (Work i)) w = Inr w' \<and> pool_inv w' \<and> stopped (tp_queue w')
     \<and> workers w' = (workers w)[i := Returned]"
  using assms
proof (induction m arbitrary: w)
  case 0
  then have "rank (workers w ! i) = 0" by (simp add: steps_to_return_def)
  then have "workers w ! i = Returned" by (cases "workers w ! i" rule: rank.cases) simp_all
  then have "(workers w)[i := Returned] = workers w" by (metis list_update_id)
  with 0 show ?case by simp
next
  case (Suc m)
  from inv_step [OF Suc.prems(1), of "Work i"] obtain w1 where
    w1: "step (Work i) w = Inr w1" "pool_inv w1" by blast
  from Suc.prems(4) have "0 < steps_to_return i w" by simp
  from Work_stopped_progress [OF Suc.prems(1,2,3) w1(1) this] Suc.prems(4)
  have p: "steps_to_return i w1 = m" "stopped (tp_queue w1)"
    "(workers w1)[i := Returned] = (workers w)[i := Returned]"
    by simp_all
  from p(3) have "length (workers w1) = length (workers w)"
    by (metis length_list_update)
  with Suc.prems(3) have "i < length (workers w1)" by simp
  from Suc.IH [OF w1(2) p(2) this p(1)] obtain w' where
    "exec (replicate m (Work i)) w1 = Inr w'" "pool_inv w'" "stopped (tp_queue w')"
    "workers w' = (workers w1)[i := Returned]"
    by blast
  with w1(1) p(3) show ?case by simp
qed

lemma workers_return:
  assumes "pool_inv w" and "stopped (tp_queue w)" and "k \<le> length (workers w)"
  shows "\<exists>es w'. (\<forall>e \<in> set es. \<exists>i. e = Work i) \<and> exec es w = Inr w' \<and> pool_inv w'
     \<and> stopped (tp_queue w') \<and> length (workers w') = length (workers w)
     \<and> (\<forall>j < k. workers w' ! j = Returned)"
  using assms(3)
proof (induction k)
  case 0
  have "exec [] w = Inr w" by simp
  with assms(1,2) show ?case by (intro exI [of _ "[]"] exI [of _ w]) simp
next
  case (Suc k)
  then have "k \<le> length (workers w)" and k: "k < length (workers w)" by simp_all
  from Suc.IH [OF this(1)] obtain es w1 where
    w1: "\<forall>e \<in> set es. \<exists>i. e = Work i" "exec es w = Inr w1" "pool_inv w1"
      "stopped (tp_queue w1)" "length (workers w1) = length (workers w)"
      "\<forall>j < k. workers w1 ! j = Returned"
    by blast
  from k w1(5) have k1: "k < length (workers w1)" by simp
  from worker_returns [OF w1(3,4) k1 refl] obtain w' where
    w': "exec (replicate (steps_to_return k w1) (Work k)) w1 = Inr w'" "pool_inv w'"
      "stopped (tp_queue w')" "workers w' = (workers w1)[k := Returned]"
    by blast
  let ?es = "es @ replicate (steps_to_return k w1) (Work k)"
  have "\<forall>e \<in> set ?es. \<exists>i. e = Work i" using w1(1) by auto
  moreover have "exec ?es w = Inr w'" using w1(2) w'(1) by (simp add: exec_append)
  moreover have "length (workers w') = length (workers w)" using w'(4) w1(5) by simp
  moreover have "\<forall>j < Suc k. workers w' ! j = Returned"
    using w'(4) w1(6) k1 by (auto simp: nth_list_update less_Suc_eq)
  ultimately show ?case using w'(2,3) by blast
qed

lemma destructor_returns:
  assumes "pool_inv w" and "stopped (tp_queue w)"
  shows "\<exists>es w'. (\<forall>e \<in> set es. \<exists>i. e = Work i) \<and> exec es w = Inr w' \<and> joined w'"
proof -
  from workers_return [OF assms order_refl] obtain es w' where
    "\<forall>e \<in> set es. \<exists>i. e = Work i" "exec es w = Inr w'"
    "length (workers w') = length (workers w)"
    "\<forall>j < length (workers w). workers w' ! j = Returned"
    by blast
  then show ?thesis
    by (intro exI [of _ es] exI [of _ w']) (simp add: joined_def list_all_length)
qed

section \<open>Teardown\<close>

text \<open>
  Claim C2, as the code has it. Take a threadpool in any state it can reach and a task
  that is in its queue, not yet popped; let the threads go on in any way (the destructor
  stopping the queue, workers stepping, further posts and cancellations). No \<^verbatim>\<open>CHECK\<close>
  fails, and if the workers have all returned, which is when the destructor's joins
  are over, then the queue is stopped and empty and the task is \<open>COMPLETED\<close>: a worker
  popped it and took it through the loop body. If the task was \<open>QUEUED\<close> and nobody
  cancelled it, its \<^verbatim>\<open>Run()\<close> was invoked. Once the queue is stopped the workers
  do return: their own steps, with no help from other threads, bring all of them to the
  end of \<^verbatim>\<open>_Run\<close>.
\<close>

theorem C2_teardown_drains_queue:
  assumes "Threadpool_ctor n env cpu = Inr w0" and "exec es0 w0 = Inr w"
    and "t \<in> set (queue (tp_queue w))" and "task_state t = Some h"
  shows "(\<exists>w'. exec es w = Inr w'
     \<and> (joined w' \<longrightarrow>
          stopped (tp_queue w') \<and> queue (tp_queue w') = []
          \<and> state (heap w' ! h) = COMPLETED
          \<and> (st (heap w) t = Some QUEUED \<and> DoCancel h \<notin> set es \<longrightarrow> t \<in> set (run_log w'))))
   \<and> (stopped (tp_queue w) \<longrightarrow>
        (\<exists>es' w''. (\<forall>e \<in> set es'. \<exists>i. e = Work i) \<and> exec es' w = Inr w'' \<and> joined w''))"
proof -
  from inv_exec [OF inv_ctor [OF assms(1)], of es0] assms(2) have inv: "pool_inv w" by simp
  from inv_exec [OF inv, of es] obtain w' where w': "exec es w = Inr w'" "pool_inv w'"
    by blast
  from assms(3,4) have "settled h w"
    by (auto simp: settled_def in_flight_def)
  from settled_exec [OF inv this w'(1)] have settled: "settled h w'" .
  have "stopped (tp_queue w') \<and> queue (tp_queue w') = []
          \<and> state (heap w' ! h) = COMPLETED
          \<and> (st (heap w) t = Some QUEUED \<and> DoCancel h \<notin> set es \<longrightarrow> t \<in> set (run_log w'))"
    if j: "joined w'"
  proof (intro conjI impI)
    from joined_not_in_flight(1) [OF w'(2) j]
    show "queue (tp_queue w') = []" .
    from joined_not_in_flight(2) [OF w'(2) j, of h] settled
    show "state (heap w' ! h) = COMPLETED"
      by (simp add: settled_def)
    from j have all: "\<forall>j < length (workers w'). workers w' ! j = Returned"
      by (simp add: joined_def list_all_length)
    from w'(2) have "0 < length (workers w')" by (simp add: pool_inv_def)
    with all have "\<exists>j < length (workers w'). workers w' ! j = Returned" by blast
    with w'(2) show "stopped (tp_queue w')" by (simp add: inv_defs)
  next
    assume "st (heap w) t = Some QUEUED \<and> DoCancel h \<notin> set es"
    with assms(3) have "will_run t w" "DoCancel h \<notin> set es"
      by (simp_all add: will_run_def)
    from will_run_exec [OF inv this(1) assms(4) this(2) w'(1)] have "will_run t w'" .
    from joined_will_run [OF w'(2) j this] show "t \<in> set (run_log w')" .
  qed
  with w'(1) destructor_returns [OF inv] show ?thesis by blast
qed


lemma teardown_run:
  "exec [DoPost \<lparr>run_id = 7, task_state = None\<rparr>, DoStop]
        \<lparr>heap = [], tp_queue = TaskQueue_ctor, workers = [Popping], run_log = []\<rparr>
     = Inr \<lparr>heap = [\<lparr>state = QUEUED\<rparr>],
            tp_queue = \<lparr>queue = [\<lparr>run_id = 7, task_state = Some 0\<rparr>], outstanding_tasks = 1,
                        stopped = True, task_available_signals = 1,
                        task_available_broadcasts = 1, tasks_drained_broadcasts = 0\<rparr>,
            workers = [Popping], run_log = []\<rparr>"
  "exec [Work 0, Work 0, Work 0, Work 0, Work 0, Work 0]
        \<lparr>heap = [\<lparr>state = QUEUED\<rparr>],
         tp_queue = \<lparr>queue = [\<lparr>run_id = 7, task_state = Some 0\<rparr>], outstanding_tasks = 1,
                     stopped = True, task_available_signals = 1,
                     task_available_broadcasts = 1, tasks_drained_broadcasts = 0\<rparr>,
         workers = [Popping], run_log = []\<rparr>
     = Inr \<lparr>heap = [\<lparr>state = COMPLETED\<rparr>],
            tp_queue = \<lparr>queue = [], outstanding_tasks = 0,
                        stopped = True, task_available_signals = 1,
                        task_available_broadcasts = 1, tasks_drained_broadcasts = 1\<rparr>,
            workers = [Returned], run_log = [\<lparr>run_id = 7, task_state = Some 0\<rparr>]\<rparr>"
  by (simp_all add: Post_def Push_def Task_TryUpdateState_def TryUpdateState_def SetTaskState_def
      TaskState_ctor_def TaskQueue_ctor_def BlockingPop_def NotifyOfCompletion_def Stop_def)

theorem C2_teardown_drains_queue_witness:
  "Threadpool_ctor 1 None None
     = Inr \<lparr>heap = [], tp_queue = TaskQueue_ctor, workers = [Popping], run_log = []\<rparr>
   \<and> (\<exists>w w'.
         exec [DoPost \<lparr>run_id = 7, task_state = None\<rparr>, DoStop]
           \<lparr>heap = [], tp_queue = TaskQueue_ctor, workers = [Popping], run_log = []\<rparr> = Inr w
       \<and> stopped (tp_queue w)
       \<and> \<lparr>run_id = 7, task_state = Some 0\<rparr> \<in> set (queue (tp_queue w))
       \<and> st (heap w) \<lparr>run_id = 7, task_state = Some 0\<rparr> = Some QUEUED
       \<and> exec [Work 0, Work 0, Work 0, Work 0, Work 0, Work 0] w = Inr w'
       \<and> joined w'
       \<and> queue (tp_queue w') = []
       \<and> state (heap w' ! 0) = COMPLETED
       \<and> \<lparr>run_id = 7, task_state = Some 0\<rparr> \<in> set (run_log w'))"
proof -
  let ?init = "\<lparr>heap = [], tp_queue = TaskQueue_ctor, workers = [Popping], run_log = []\<rparr>"
  let ?t = "\<lparr>run_id = 7, task_state = Some 0\<rparr>"
  let ?w = "\<lparr>heap = [\<lparr>state = QUEUED\<rparr>],
            tp_queue = \<lparr>queue = [?t], outstanding_tasks = 1,
                        stopped = True, task_available_signals = 1,
                        task_available_broadcasts = 1, tasks_drained_broadcasts = 0\<rparr>,
            workers = [Popping], run_log = []\<rparr>"
  let ?w' = "\<lparr>heap = [\<lparr>state = COMPLETED\<rparr>],
            tp_queue = \<lparr>queue = [], outstanding_tasks = 0,
                        stopped = True, task_available_signals = 1,
                        task_available_broadcasts = 1, tasks_drained_broadcasts = 1\<rparr>,
            workers = [Returned], run_log = [?t]\<rparr>"
  let ?es = "[Work 0, Work 0, Work 0, Work 0, Work 0, Work 0]"
  have ctor: "Threadpool_ctor 1 None None = Inr ?init"
    by (simp add: Threadpool_ctor_def)
  have queued: "?t \<in> set (queue (tp_queue ?w))" and handle: "task_state ?t = Some 0"
    and fresh: "st (heap ?w) ?t = Some QUEUED \<and> DoCancel 0 \<notin> set ?es"
    and j: "joined ?w'"
    by (simp_all add: st_def joined_def)
  from C2_teardown_drains_queue [OF ctor teardown_run(1) queued handle, of ?es, THEN conjunct1]
    teardown_run(2) j fresh
  have "queue (tp_queue ?w') = [] \<and> state (heap ?w' ! 0) = COMPLETED \<and> ?t \<in> set (run_log ?w')"
    by simp
  with ctor teardown_run j fresh show ?thesis
    by (intro conjI exI [of _ ?w] exI [of _ ?w']) simp_all
qed

text \<open>
  The claim as worded has the tasks that are still queued when the queue is stopped
  popped but not run, their state left at \<open>QUEUED\<close>. With one worker, a task posted
  and the queue stopped before the worker has popped it: the worker pops the task,
  assigns it, runs it, completes it, and returns only when it finds the queue empty.
\<close>

theorem C2_queued_task_is_run_counterexample:
  "exec [DoPost \<lparr>run_id = 7, task_state = None\<rparr>, DoStop]
        \<lparr>heap = [], tp_queue = TaskQueue_ctor, workers = [Popping], run_log = []\<rparr>
     = Inr \<lparr>heap = [\<lparr>state = QUEUED\<rparr>],
            tp_queue = \<lparr>queue = [\<lparr>run_id = 7, task_state = Some 0\<rparr>], outstanding_tasks = 1,
                        stopped = True, task_available_signals = 1,
                        task_available_broadcasts = 1, tasks_drained_broadcasts = 0\<rparr>,
            workers = [Popping], run_log = []\<rparr>
   \<and> exec [Work 0, Work 0, Work 0, Work 0, Work 0, Work 0]
        \<lparr>heap = [\<lparr>state = QUEUED\<rparr>],
         tp_queue = \<lparr>queue = [\<lparr>run_id = 7, task_state = Some 0\<rparr>], outstanding_tasks = 1,
                     stopped = True, task_available_signals = 1,
                     task_available_broadcasts = 1, tasks_drained_broadcasts = 0\<rparr>,
         workers = [Popping], run_log = []\<rparr>
     = Inr \<lparr>heap = [\<lparr>state = COMPLETED\<rparr>],
            tp_queue = \<lparr>queue = [], outstanding_tasks = 0,
                        stopped = True, task_available_signals = 1,
                        task_available_broadcasts = 1, tasks_drained_broadcasts = 1\<rparr>,
            workers = [Returned], run_log = [\<lparr>run_id = 7, task_state = Some 0\<rparr>]\<rparr>"
  by (simp add: Post_def Push_def Task_TryUpdateState_def TryUpdateState_def SetTaskState_def
      TaskState_ctor_def TaskQueue_ctor_def BlockingPop_def NotifyOfCompletion_def Stop_def)

section \<open>Posting to a stopped queue\<close>

lemma step_heap_length:
  assumes "pool_inv w" and "step e w = Inr w'"
  shows "length (heap w) \<le> length (heap w')"
proof (cases e)
  case (Work i)
  show ?thesis
  proof (cases "i < length (workers w)")
    case False
    with assms Work show ?thesis by simp
  next
    case True
    from assms(1) True assms(2) [unfolded Work] show ?thesis
      by (cases rule: Work_cases) simp_all
  qed
next
  case (DoPost t)
  with assms(2) show ?thesis by (auto simp: Post_result split: if_splits)
next
  case (DoCancel h)
  with assms(2) show ?thesis by (auto split: if_splits prod.splits)
next
  case DoStop
  with assms(2) show ?thesis by auto
qed

lemma step_run_log:
  assumes "pool_inv w" and "step e w = Inr w'"
  shows "run_log w' = run_log w
     \<or> (\<exists>i t. i < length (workers w) \<and> workers w ! i = Holding t (AtRun ASSIGNED)
           \<and> run_log w' = run_log w @ [t])"
proof (cases e)
  case (Work i)
  show ?thesis
  proof (cases "i < length (workers w)")
    case False
    with assms Work show ?thesis by simp
  next
    case True
    from assms(1) True assms(2) [unfolded Work] show ?thesis
      using True by (cases rule: Work_cases) auto
  qed
next
  case (DoPost t)
  with assms(2) show ?thesis by (auto simp: Post_result split: if_splits)
next
  case (DoCancel h)
  with assms(2) show ?thesis by (auto split: if_splits prod.splits)
next
  case DoStop
  with assms(2) show ?thesis by auto
qed

lemma logged_step:
  assumes "pool_inv w" and "logged_ok w" and "step e w = Inr w'"
  shows "logged_ok w'"
proof -
  from step_heap_length [OF assms(1,3)] have len: "length (heap w) \<le> length (heap w')" .
  from step_run_log [OF assms(1,3)] show ?thesis
  proof
    assume "run_log w' = run_log w"
    with assms(2) len show ?thesis by (fastforce simp: logged_ok_def)
  next
    assume "\<exists>i t. i < length (workers w) \<and> workers w ! i = Holding t (AtRun ASSIGNED)
           \<and> run_log w' = run_log w @ [t]"
    then obtain i t where it: "i < length (workers w)" "workers w ! i = Holding t (AtRun ASSIGNED)"
      "run_log w' = run_log w @ [t]" by blast
    from held_handle_bound [OF assms(1) it(1,2)] obtain h where
      "task_state t = Some h" "h < length (heap w)" by blast
    with assms(2) len it(3) show ?thesis by (fastforce simp: logged_ok_def)
  qed
qed

lemma logged_exec:
  assumes "pool_inv w" and "logged_ok w" and "exec es w = Inr w'"
  shows "logged_ok w'"
  using assms
proof (induction es arbitrary: w)
  case Nil
  then show ?case by simp
next
  case (Cons e es)
  from inv_step [OF Cons.prems(1), of e] obtain w1 where w1: "step e w = Inr w1" "pool_inv w1"
    by blast
  from logged_step [OF Cons.prems(1,2) w1(1)] have "logged_ok w1" .
  with Cons.IH [OF w1(2)] Cons.prems(3) w1(1) show ?case by simp
qed

lemma logged_ctor:
  assumes "Threadpool_ctor n env cpu = Inr w"
  shows "logged_ok w"
  using assms
  by (auto simp: Threadpool_ctor_def Let_def logged_ok_def split: if_splits)

lemma detached_Work:
  assumes "pool_inv w" and "detached h w" and "step (Work i) w = Inr w'"
  shows "detached h w' \<and> heap w' ! h = heap w ! h"
proof (cases "i < length (workers w)")
  case False
  with assms show ?thesis by simp
next
  case i: True
  note split = in_flight_split [OF i, of h] and after = in_flight_after [OF i, of w' _ h]
  from assms(2) have h: "h < length (heap w)" and nf: "\<not> in_flight h w"
    and log: "\<forall>t \<in> set (run_log w). task_state t \<noteq> Some h"
    by (simp_all add: detached_def)
  from assms(1) i assms(3) show ?thesis
  proof (cases rule: Work_cases)
    case blocked
    with assms(2) show ?thesis by simp
  next
    case exit
    then have "\<not> in_flight h w'"
      using after [of Returned] nf by (simp add: split)
    with exit(4) h log show ?thesis by (simp add: detached_def)
  next
    case (pop t rest)
    then have "\<not> in_flight h w'"
      using after [of "Holding t AtAssign"] nf by (auto simp: split)
    with pop(3) h log show ?thesis by (simp add: detached_def)
  next
    case (assign t h' s)
    then have "\<not> in_flight h w'"
      using after [of "Holding t (AtRun (if s = QUEUED then ASSIGNED else CANCELLED))"] nf
      by (simp add: split)
    moreover have "h' \<noteq> h" using nf assign(1,2) by (auto simp: split)
    ultimately show ?thesis using assign(6) h log by (simp add: detached_def)
  next
    case (run t)
    then have "\<not> in_flight h w'"
      using after [of "Holding t AtComplete"] nf by (simp add: split)
    moreover have "task_state t \<noteq> Some h" using nf run(1) by (auto simp: split)
    ultimately show ?thesis using run(2) h log by (simp add: detached_def)
  next
    case (skip t)
    then have "\<not> in_flight h w'"
      using after [of "Holding t AtComplete"] nf by (simp add: split)
    with skip(2) h log show ?thesis by (simp add: detached_def)
  next
    case (complete t h')
    then have "\<not> in_flight h w'"
      using after [of "Holding t AtNotify"] nf by (simp add: split)
    moreover have "h' \<noteq> h" using nf complete(1,2) by (auto simp: split)
    ultimately show ?thesis using complete(4) h log by (simp add: detached_def)
  next
    case (notify t h' q')
    then have "\<not> in_flight h w'"
      using after [of Popping] nf by (auto simp: split)
    with notify(7) h log show ?thesis by (simp add: detached_def)
  next
    case returned
    with assms(2) show ?thesis by simp
  qed
qed

lemma detached_step:
  assumes "pool_inv w" and "detached h w" and "step e w = Inr w'"
  shows "detached h w'
     \<and> heap w' ! h = (if e = DoCancel h then snd (Cancel (heap w ! h)) else heap w ! h)"
proof (cases e)
  case (Work i)
  with detached_Work [OF assms(1,2)] assms(3) show ?thesis by simp
next
  case (DoPost t)
  with assms(3) have "w' = (if stopped (tp_queue w) then w\<lparr>heap := heap w @ [\<lparr>state = INITIAL\<rparr>]\<rparr>
          else w\<lparr>heap := heap w @ [\<lparr>state = QUEUED\<rparr>],
                 tp_queue := (tp_queue w)
                   \<lparr>queue := queue (tp_queue w) @ [t\<lparr>task_state := Some (length (heap w))\<rparr>],
                    outstanding_tasks := outstanding_tasks (tp_queue w) + 1,
                    task_available_signals := task_available_signals (tp_queue w) + 1\<rparr>\<rparr>)"
    by (simp add: Post_result)
  with assms(2) DoPost show ?thesis
    by (auto simp: detached_def in_flight_def nth_append)
next
  case (DoCancel h')
  with assms(2,3) show ?thesis
    by (auto simp: detached_def split: if_splits prod.splits)
next
  case DoStop
  with assms(2,3) show ?thesis
    by (auto simp: detached_def in_flight_def Stop_def)
qed

lemma Cancel_INITIAL_or_CANCELLED:
  "state ts = INITIAL \<or> state ts = CANCELLED \<Longrightarrow> state (snd (Cancel ts)) = CANCELLED"
  by (auto simp: Cancel_eq)

lemma detached_exec:
  assumes "pool_inv w" and "detached h w" and "exec es w = Inr w'"
    and "state (heap w ! h) = INITIAL \<or> state (heap w ! h) = CANCELLED"
  shows "detached h w'
     \<and> (state (heap w' ! h) = INITIAL \<or> state (heap w' ! h) = CANCELLED)
     \<and> (DoCancel h \<notin> set es \<longrightarrow> heap w' ! h = heap w ! h)
     \<and> (DoCancel h \<in> set es \<longrightarrow> state (heap w' ! h) = CANCELLED)"
  using assms
proof (induction es arbitrary: w)
  case Nil
  then show ?case by simp
next
  case (Cons e es)
  from inv_step [OF Cons.prems(1), of e] obtain w1 where w1: "step e w = Inr w1" "pool_inv w1"
    by blast
  from detached_step [OF Cons.prems(1,2) w1(1)] have d1: "detached h w1"
    and h1: "heap w1 ! h = (if e = DoCancel h then snd (Cancel (heap w ! h)) else heap w ! h)"
    by simp_all
  from h1 Cons.prems(4) have s1: "state (heap w1 ! h) = INITIAL \<or> state (heap w1 ! h) = CANCELLED"
    by (auto simp: Cancel_eq)
  from Cons.prems(3) w1(1) have "exec es w1 = Inr w'" by simp
  from Cons.IH [OF w1(2) d1 this s1]
  have IH: "detached h w'"
    "state (heap w' ! h) = INITIAL \<or> state (heap w' ! h) = CANCELLED"
    "DoCancel h \<notin> set es \<longrightarrow> heap w' ! h = heap w1 ! h"
    "DoCancel h \<in> set es \<longrightarrow> state (heap w' ! h) = CANCELLED"
    by simp_all
  show ?case
  proof (cases "e = DoCancel h")
    case True
    with h1 Cons.prems(4) have c: "state (heap w1 ! h) = CANCELLED"
      by (auto simp: Cancel_eq)
    have "state (heap w' ! h) = CANCELLED"
    proof (cases "DoCancel h \<in> set es")
      case True
      with IH(4) show ?thesis by simp
    next
      case False
      with IH(3) c show ?thesis by simp
    qed
    with IH(1,2) True show ?thesis by simp
  next
    case False
    with h1 IH show ?thesis by simp
  qed
qed

lemma detached_after_rejected_Post:
  assumes "pool_inv w" and "logged_ok w"
  shows "detached (length (heap w)) (w\<lparr>heap := heap w @ [x]\<rparr>)"
proof -
  have "\<not> in_flight (length (heap w)) w"
    using queued_handle_bound [OF assms(1)] held_handle_bound [OF assms(1)]
    by (fastforce simp: in_flight_def)
  moreover have "\<forall>t \<in> set (run_log w). task_state t \<noteq> Some (length (heap w))"
    using assms(2) by (fastforce simp: logged_ok_def)
  ultimately show ?thesis by (simp add: detached_def)
qed

text \<open>
  Claim C10, as the code has it. \<open>Post\<close> never fails: for every task and every state
  of the pool it allocates a new \<open>TaskState\<close>, attaches it to the task and returns the
  handle to it, which is not null. If the queue is not stopped the task is enqueued with
  state \<open>QUEUED\<close>. If the queue is stopped, nothing but the heap changes: the task is
  in no queue and in no worker's hands, and the new \<open>TaskState\<close> is \<open>INITIAL\<close>. From
  then on, whatever the threads do, no \<^verbatim>\<open>CHECK\<close> fails, the pool never touches that
  \<open>TaskState\<close> and never runs a task attached to it: its state is \<open>INITIAL\<close> for as long
  as no holder of the handle calls \<open>Cancel\<close> on it, and \<open>CANCELLED\<close> from the first
  such call on.
\<close>

theorem C10_post_never_fails:
  "Post t w =
     Inr (Some (length (heap w)),
          if stopped (tp_queue w) then w\<lparr>heap := heap w @ [\<lparr>state = INITIAL\<rparr>]\<rparr>
          else w\<lparr>heap := heap w @ [\<lparr>state = QUEUED\<rparr>],
                 tp_queue := (tp_queue w)
                   \<lparr>queue := queue (tp_queue w) @ [t\<lparr>task_state := Some (length (heap w))\<rparr>],
                    outstanding_tasks := outstanding_tasks (tp_queue w) + 1,
                    task_available_signals := task_available_signals (tp_queue w) + 1\<rparr>\<rparr>)
   \<and> (Threadpool_ctor n env cpu = Inr w0 \<and> exec es0 w0 = Inr w \<and> stopped (tp_queue w) \<longrightarrow>
        (\<exists>w1 w2. Post t w = Inr (Some (length (heap w)), w1)
            \<and> queue (tp_queue w1) = queue (tp_queue w) \<and> workers w1 = workers w
            \<and> run_log w1 = run_log w
            \<and> state (heap w1 ! length (heap w)) = INITIAL
            \<and> exec es w1 = Inr w2
            \<and> \<not> in_flight (length (heap w)) w2
            \<and> (\<forall>t' \<in> set (run_log w2). task_state t' \<noteq> Some (length (heap w)))
            \<and> (DoCancel (length (heap w)) \<notin> set es \<longrightarrow> state (heap w2 ! length (heap w)) = INITIAL)
            \<and> (DoCancel (length (heap w)) \<in> set es \<longrightarrow> state (heap w2 ! length (heap w)) = CANCELLED)))"
proof (intro conjI impI)
  show "Post t w =
     Inr (Some (length (heap w)),
          if stopped (tp_queue w) then w\<lparr>heap := heap w @ [\<lparr>state = INITIAL\<rparr>]\<rparr>
          else w\<lparr>heap := heap w @ [\<lparr>state = QUEUED\<rparr>],
                 tp_queue := (tp_queue w)
                   \<lparr>queue := queue (tp_queue w) @ [t\<lparr>task_state := Some (length (heap w))\<rparr>],
                    outstanding_tasks := outstanding_tasks (tp_queue w) + 1,
                    task_available_signals := task_available_signals (tp_queue w) + 1\<rparr>\<rparr>)"
    by (rule Post_result)
next
  assume a: "Threadpool_ctor n env cpu = Inr w0 \<and> exec es0 w0 = Inr w \<and> stopped (tp_queue w)"
  let ?h = "length (heap w)"
  let ?w1 = "w\<lparr>heap := heap w @ [\<lparr>state = INITIAL\<rparr>]\<rparr>"
  from a have ctor: "Threadpool_ctor n env cpu = Inr w0" and run: "exec es0 w0 = Inr w"
    and stopped: "stopped (tp_queue w)" by simp_all
  from inv_exec [OF inv_ctor [OF ctor], of es0] run have inv: "pool_inv w" by simp
  from logged_exec [OF inv_ctor [OF ctor] logged_ctor [OF ctor] run] have logged: "logged_ok w" .
  have post: "Post t w = Inr (Some ?h, ?w1)"
    using stopped by (simp add: Post_result)
  then have "step (DoPost t) w = Inr ?w1" by simp
  with inv_step [OF inv, of "DoPost t"] have inv1: "pool_inv ?w1" by simp
  from inv_exec [OF inv1, of es] obtain w2 where w2: "exec es ?w1 = Inr w2" by blast
  have det: "detached ?h ?w1" using inv logged by (rule detached_after_rejected_Post)
  have init: "state (heap ?w1 ! ?h) = INITIAL" by simp
  then have "state (heap ?w1 ! ?h) = INITIAL \<or> state (heap ?w1 ! ?h) = CANCELLED" by blast
  from detached_exec [OF inv1 det w2 this] init
  have "detached ?h w2"
    and "DoCancel ?h \<notin> set es \<longrightarrow> state (heap w2 ! ?h) = INITIAL"
    and "DoCancel ?h \<in> set es \<longrightarrow> state (heap w2 ! ?h) = CANCELLED"
    by simp_all
  with post w2 init show "\<exists>w1 w2. Post t w = Inr (Some (length (heap w)), w1)
            \<and> queue (tp_queue w1) = queue (tp_queue w) \<and> workers w1 = workers w
            \<and> run_log w1 = run_log w
            \<and> state (heap w1 ! length (heap w)) = INITIAL
            \<and> exec es w1 = Inr w2
            \<and> \<not> in_flight (length (heap w)) w2
            \<and> (\<forall>t' \<in> set (run_log w2). task_state t' \<noteq> Some (length (heap w)))
            \<and> (DoCancel (length (heap w)) \<notin> set es \<longrightarrow> state (heap w2 ! length (heap w)) = INITIAL)
            \<and> (DoCancel (length (heap w)) \<in> set es \<longrightarrow> state (heap w2 ! length (heap w)) = CANCELLED)"
    by (intro exI [of _ ?w1] exI [of _ w2]) (simp add: detached_def)
qed

theorem C10_post_never_fails_witness:
  "Threadpool_ctor 1 None None
     = Inr \<lparr>heap = [], tp_queue = TaskQueue_ctor, workers = [Popping], run_log = []\<rparr>
   \<and> exec [DoStop] \<lparr>heap = [], tp_queue = TaskQueue_ctor, workers = [Popping], run_log = []\<rparr>
     = Inr \<lparr>heap = [], tp_queue = Stop TaskQueue_ctor, workers = [Popping], run_log = []\<rparr>
   \<and> stopped (Stop TaskQueue_ctor)
   \<and> Post \<lparr>run_id = 7, task_state = None\<rparr>
        \<lparr>heap = [], tp_queue = Stop TaskQueue_ctor, workers = [Popping], run_log = []\<rparr>
     = Inr (Some 0,
            \<lparr>heap = [\<lparr>state = INITIAL\<rparr>], tp_queue = Stop TaskQueue_ctor,
             workers = [Popping], run_log = []\<rparr>)
   \<and> (\<exists>w2. exec [Work 0, DoPost \<lparr>run_id = 8, task_state = None\<rparr>, Work 0]
               \<lparr>heap = [\<lparr>state = INITIAL\<rparr>], tp_queue = Stop TaskQueue_ctor,
                workers = [Popping], run_log = []\<rparr> = Inr w2
          \<and> state (heap w2 ! 0) = INITIAL
          \<and> (\<forall>t' \<in> set (run_log w2). task_state t' \<noteq> Some 0))"
proof -
  let ?init = "\<lparr>heap = [], tp_queue = TaskQueue_ctor, workers = [Popping], run_log = []\<rparr>"
  let ?w = "\<lparr>heap = [], tp_queue = Stop TaskQueue_ctor, workers = [Popping], run_log = []\<rparr>"
  let ?t = "\<lparr>run_id = 7, task_state = None\<rparr>"
  let ?es = "[Work 0, DoPost \<lparr>run_id = 8, task_state = None\<rparr>, Work 0]"
  have ctor: "Threadpool_ctor 1 None None = Inr ?init"
    by (simp add: Threadpool_ctor_def)
  have run: "exec [DoStop] ?init = Inr ?w" by simp
  have stopped: "stopped (Stop TaskQueue_ctor)" by (simp add: Stop_def)
  have fresh: "DoCancel 0 \<notin> set ?es" by simp
  have hyp: "Threadpool_ctor 1 None None = Inr ?init \<and> exec [DoStop] ?init = Inr ?w
      \<and> stopped (tp_queue ?w)"
    using ctor run stopped by simp
  note C = C10_post_never_fails [of ?t ?w 1 None None ?init "[DoStop]" ?es]
  from C [THEN conjunct1] stopped
  have post: "Post ?t ?w = Inr (Some 0, \<lparr>heap = [\<lparr>state = INITIAL\<rparr>], tp_queue = Stop TaskQueue_ctor,
             workers = [Popping], run_log = []\<rparr>)"
    by simp
  from C [THEN conjunct2, THEN mp, OF hyp] post fresh
  have "\<exists>w2. exec ?es \<lparr>heap = [\<lparr>state = INITIAL\<rparr>], tp_queue = Stop TaskQueue_ctor,
                workers = [Popping], run_log = []\<rparr> = Inr w2
          \<and> state (heap w2 ! 0) = INITIAL
          \<and> (\<forall>t' \<in> set (run_log w2). task_state t' \<noteq> Some 0)"
    by auto
  with ctor run stopped post show ?thesis by simp
qed

text \<open>
  The claim as worded has the state of the returned handle remain \<open>INITIAL\<close> forever.
  The handle is there to cancel with: after a post that the stopped queue rejected, a
  \<open>Cancel\<close> on the returned handle (as \<open>uv_executor_cancel\<close> makes on the handle in the
  request's cookie) succeeds and leaves the state \<open>CANCELLED\<close>.
\<close>

theorem C10_cancel_after_rejected_post_counterexample:
  "Post \<lparr>run_id = 7, task_state = None\<rparr>
        \<lparr>heap = [], tp_queue = Stop TaskQueue_ctor, workers = [Popping], run_log = []\<rparr>
     = Inr (Some 0,
            \<lparr>heap = [\<lparr>state = INITIAL\<rparr>], tp_queue = Stop TaskQueue_ctor,
             workers = [Popping], run_log = []\<rparr>)
   \<and> exec [DoCancel 0]
        \<lparr>heap = [\<lparr>state = INITIAL\<rparr>], tp_queue = Stop TaskQueue_ctor,
         workers = [Popping], run_log = []\<rparr>
     = Inr \<lparr>heap = [\<lparr>state = CANCELLED\<rparr>], tp_queue = Stop TaskQueue_ctor,
            workers = [Popping], run_log = []\<rparr>
   \<and> uv_executor_cancel (- 22) (- 16) (Some \<lparr>reserved0 = Some \<lparr>data_state = 0\<rparr>\<rparr>)
        [\<lparr>state = INITIAL\<rparr>]
     = Inr (0, [\<lparr>state = CANCELLED\<rparr>])"
  by (simp add: Post_def Push_def Stop_def TaskQueue_ctor_def SetTaskState_def TaskState_ctor_def
      Cancel_def TryUpdateState_def uv_executor_cancel_def LibuvExecutor_Cancel_def)

end
